theory Spec2Isabelle
  imports Main "HOL-Library.AList" "HOL-Library.Char_ord" "HOL-Library.List_Lexorder"
    "HOL-Library.Word"
begin

section \<open>Action scheduler: the \<open>proposedActions\<close> getter of the actions store\<close>

text \<open>
  The getter reads \<open>changeSetsStore.selectedChangeSet?.actions ?? {}\<close>, a JavaScript object
  from action ids to action objects, and consumes it in a \<open>while\<close> loop.  The object is
  modelled as an association list in key order of the object; \<open>delete graph[k]\<close> is
  \<open>AList.delete k\<close>.  Ids are strings in the source and are compared with
  \<open>a.localeCompare(b)\<close>; the model takes an arbitrary linearly ordered type of ids, the order
  standing for the one \<open>localeCompare\<close> induces, and uses strings under their lexicographic
  order in the concrete evaluations.

  An action that has been pushed to the output has an empty \<open>parents\<close> array, so none of
  the later \<open>splice\<close> calls touches it: copying the action into the output list is the same
  as pushing the reference.
\<close>

record 'id ActionInstance =
  id_a :: 'id
  actionPrototypeId :: string
  name_a :: string
  componentId_a :: string
  actor_a :: "string option"
  parents :: "'id list"

type_synonym 'id action_graph = "('id \<times> 'id ActionInstance) list"

text \<open>\<open>Array.prototype.findIndex\<close>: the first index whose element satisfies the test, or \<open>-1\<close>.\<close>

fun findIndex :: "('a \<Rightarrow> bool) \<Rightarrow> 'a list \<Rightarrow> int" where
  "findIndex P [] = - 1"
| "findIndex P (x # xs) =
     (if P x then 0 else (let i = findIndex P xs in if i = - 1 then - 1 else i + 1))"

text \<open>
  \<open>xs.splice(index)\<close> with a single argument \<open>0 \<le> index\<close>: every element from \<open>index\<close> to
  the end is removed, the array keeps its first \<open>index\<close> elements.  The source calls it only
  when \<open>index !== -1\<close>.
\<close>

definition splice :: "int \<Rightarrow> 'a list \<Rightarrow> 'a list" where
  "splice index xs = take (nat index) xs"

text \<open>The body of \<open>for (const childAction of _.values(graph))\<close> for one child.\<close>

definition strip_parent :: "'id \<Rightarrow> 'id ActionInstance \<Rightarrow> 'id ActionInstance" where
  "strip_parent removeId childAction =
     (let index = findIndex (\<lambda>parentId. parentId = removeId) (parents childAction)
      in if index \<noteq> - 1 then childAction\<lparr>parents := splice index (parents childAction)\<rparr>
         else childAction)"

text \<open>The body of \<open>for (const removeId of removeIds)\<close>.\<close>

definition remove_action :: "'id \<Rightarrow> 'id action_graph \<Rightarrow> 'id action_graph" where
  "remove_action removeId graph =
     map (\<lambda>(k, childAction). (k, strip_parent removeId childAction)) (AList.delete removeId graph)"

text \<open>
  One pass of the \<open>while\<close> body: the entries sorted by key, the actions without parents
  pushed in that order, then each of their ids removed in the same order.
\<close>

definition sortedEntries :: "('id::linorder) action_graph \<Rightarrow> 'id action_graph" where
  "sortedEntries graph = sort_key fst graph"

definition ready_entries :: "('id::linorder) action_graph \<Rightarrow> 'id action_graph" where
  "ready_entries graph = filter (\<lambda>(k, action). length (parents action) = 0) (sortedEntries graph)"

definition iteration ::
  "('id::linorder) action_graph \<Rightarrow> 'id ActionInstance list
     \<Rightarrow> 'id action_graph \<times> 'id ActionInstance list" where
  "iteration graph actions =
     (let removeIds = map fst (ready_entries graph)
      in (fold remove_action removeIds graph, actions @ map snd (ready_entries graph)))"

text \<open>
  The loop \<open>while (_.keys(graph).length) { ... }\<close>.  Nothing in the source bounds the number
  of passes, so the loop is a partial function: \<open>None\<close> is "does not return".  On return the
  result is the output list together with the final content of the (mutated) graph object.
\<close>

partial_function (option) proposedActions_while ::
  "('id::linorder) action_graph \<Rightarrow> 'id ActionInstance list
     \<Rightarrow> ('id ActionInstance list \<times> 'id action_graph) option" where
  "proposedActions_while graph actions =
     (if length (map fst graph) = 0 then Some (actions, graph)
      else (case iteration graph actions of
              (graph', actions') \<Rightarrow> proposedActions_while graph' actions'))"

declare proposedActions_while.simps [code]

text \<open>
  The getter.  \<open>selectedChangeSet\<close> is \<open>None\<close> when no change set is selected; then the loop
  runs on a fresh empty object and the store is untouched.  Otherwise the change set's own
  \<open>actions\<close> object is the loop's \<open>graph\<close>, and what the loop leaves of it is written back.
\<close>

record 'id ChangeSet =
  id_cs :: string
  actions_cs :: "'id action_graph"

definition proposedActions ::
  "('id::linorder) ChangeSet option
     \<Rightarrow> ('id ActionInstance list \<times> 'id ChangeSet option) option" where
  "proposedActions selectedChangeSet =
     (case selectedChangeSet of
        None \<Rightarrow> map_option (\<lambda>(actions, graph). (actions, None)) (proposedActions_while [] [])
      | Some cs \<Rightarrow>
          map_option (\<lambda>(actions, graph). (actions, Some (cs\<lparr>actions_cs := graph\<rparr>)))
            (proposedActions_while (actions_cs cs) []))"


section \<open>Graph store: the state of the components store\<close>

type_synonym ComponentId = string
type_synonym ComponentNodeId = string
type_synonym EdgeId = string
type_synonym SocketId = string

text \<open>
  \<open>ChangeStatus\<close> and \<open>ActorView\<close> are imported by the store from modules outside the
  sources at hand; the four statuses are the ones \<open>changeStatsSummary\<close> counts, and an actor
  is the object \<open>{ kind, label }\<close> the store writes.
\<close>

datatype ChangeStatus = Added | Modified | Deleted | Unmodified

record ActorView =
  kind :: string
  label :: string

record ActorAndTimestamp =
  actor :: ActorView
  timestamp :: string

record Edge =
  id_e :: EdgeId
  fromNodeId :: ComponentNodeId
  fromSocketId :: SocketId
  toNodeId :: ComponentNodeId
  toSocketId :: SocketId
  isInvisible :: "bool option"
  changeStatus :: "ChangeStatus option"
  createdInfo :: ActorAndTimestamp
  deletedInfo :: "ActorAndTimestamp option"

text \<open>
  Of \<open>RawComponent\<close> the fields the modelled actions read or write, and its identity and
  tree fields; the remaining ones (schema, colour, position, resource, sockets) are never
  touched by them.
\<close>

record RawComponent =
  id_c :: ComponentId
  nodeId :: ComponentNodeId
  displayName :: string
  parentNodeId :: "ComponentNodeId option"
  childNodeIds :: "ComponentNodeId list"
  changeStatus_c :: ChangeStatus
  createdInfo_c :: ActorAndTimestamp
  updatedInfo_c :: ActorAndTimestamp
  deletedInfo_c :: "ActorAndTimestamp option"

text \<open>
  The state.  \<open>edgesById\<close> and \<open>rawComponentsById\<close> are JavaScript objects, modelled as
  association lists: \<open>obj[k] = v\<close> is \<open>AList.update k v\<close> (the value is replaced in place, a
  new key goes to the end), \<open>delete obj[k]\<close> is \<open>AList.delete k\<close>, \<open>_.values(obj)\<close> are the
  values in list order.

  Edge objects are shared: \<open>DELETE_EDGE\<close> and \<open>RESTORE_EDGE\<close> keep a reference to the edge
  object in their rollback closure and write to the same object through the map.  So the
  map holds references, and \<open>edge_objects\<close> is the store of the objects they point to;
  \<open>next_object\<close> is the first reference not yet handed out.  Components are only read and
  written through the map, their objects are held by value.

  The state fields none of the modelled actions reads or writes (code views, diffs, schema
  variants, the add menu, hover and pan targets) are left out.  Ids are taken not to be
  names of properties every JavaScript object inherits (such as \<open>constructor\<close>), so that
  \<open>obj[k]\<close> is \<open>undefined\<close> exactly when \<open>k\<close> is no key of the object.
\<close>

record store =
  edge_objects :: "nat \<Rightarrow> Edge"
  next_object :: nat
  rawComponentsById :: "(ComponentId \<times> RawComponent) list"
  edgesById :: "(EdgeId \<times> nat) list"
  selectedComponentIds :: "ComponentId list"
  selectedEdgeId :: "EdgeId option"

text \<open>The getter \<open>allEdges\<close>: \<open>_.values(state.edgesById)\<close>.\<close>

definition allEdges :: "store \<Rightarrow> Edge list" where
  "allEdges state = map (\<lambda>(k, ref). edge_objects state ref) (edgesById state)"

subsection \<open>Reachability: \<open>getDependentComponents\<close>\<close>

text \<open>
  \<open>connectedNodes\<close> is a fresh object from node ids to arrays of node ids, filled by one
  pass over the edges:
  \<^verbatim>\<open>connectedNodes[fromNodeId] ||= []; connectedNodes[fromNodeId].push(toNodeId);\<close>
\<close>

type_synonym connectedNodes = "(ComponentId \<times> ComponentId list) list"

definition connect :: "Edge \<Rightarrow> connectedNodes \<Rightarrow> connectedNodes" where
  "connect edge connectedNodes =
     (let connectedNodes1 =
            (case map_of connectedNodes (fromNodeId edge) of
               None \<Rightarrow> AList.update (fromNodeId edge) [] connectedNodes
             | Some _ \<Rightarrow> connectedNodes)
      in AList.map_entry (fromNodeId edge) (\<lambda>ids. ids @ [toNodeId edge]) connectedNodes1)"

text \<open>
  \<open>walkGraph\<close> recurses inside \<open>nextIds?.forEach\<close> and pushes to the shared array
  \<open>connectedIds\<close>; the array is threaded through.  \<open>walkGraph_forEach\<close> is the \<open>forEach\<close> over
  what is left of \<open>nextIds\<close>.
\<close>

function walkGraph ::
    "connectedNodes \<Rightarrow> ComponentId \<Rightarrow> ComponentId list \<Rightarrow> ComponentId list"
  and walkGraph_forEach ::
    "connectedNodes \<Rightarrow> ComponentId list \<Rightarrow> ComponentId list \<Rightarrow> ComponentId list" where
  "walkGraph connectedNodes ident connectedIds =
     (case map_of connectedNodes ident of
        None \<Rightarrow> connectedIds
      | Some nextIds \<Rightarrow> walkGraph_forEach connectedNodes nextIds connectedIds)"
| "walkGraph_forEach connectedNodes [] connectedIds = connectedIds"
| "walkGraph_forEach connectedNodes (nid # rest) connectedIds =
     (if nid \<in> set connectedIds then walkGraph_forEach connectedNodes rest connectedIds
      else walkGraph_forEach connectedNodes rest
             (walkGraph connectedNodes nid (connectedIds @ [nid])))"
  by pat_completeness auto

text \<open>
  Termination.  A nested call extends \<open>connectedIds\<close> by a node of the graph that was not
  in it, and what a call returns contains what it was given; so the number of nodes not
  yet in \<open>connectedIds\<close> bounds the depth of the recursion.
\<close>

definition nodes_of :: "connectedNodes \<Rightarrow> ComponentId set" where
  "nodes_of connectedNodes = (\<Union>(k, ids)\<in>set connectedNodes. set ids)"

lemma finite_nodes_of: "finite (nodes_of cn)"
  by (auto simp: nodes_of_def)

lemma map_of_nodes_of: "map_of cn x = Some ids \<Longrightarrow> set ids \<subseteq> nodes_of cn"
  by (auto simp: nodes_of_def dest: map_of_SomeD)

lemma walk_grows_partial:
  "walkGraph_walkGraph_forEach_dom (Inl (cn, x, vis)) \<Longrightarrow> set vis \<subseteq> set (walkGraph cn x vis)"
  "walkGraph_walkGraph_forEach_dom (Inr (cn, ns, vis)) \<Longrightarrow> set vis \<subseteq> set (walkGraph_forEach cn ns vis)"
proof (induction cn x vis and cn ns vis rule: walkGraph_walkGraph_forEach.pinduct)
  case (1 cn x vis)
  then show ?case by (auto simp: walkGraph.psimps split: option.splits)
next
  case (2 cn vis)
  then show ?case by (simp add: walkGraph_forEach.psimps)
next
  case (3 cn nid rest vis)
  then show ?case by (auto simp: walkGraph_forEach.psimps)
qed

definition walk_measure ::
  "connectedNodes \<times> ComponentId \<times> ComponentId list + connectedNodes \<times> ComponentId list \<times> ComponentId list
     \<Rightarrow> nat \<times> nat" where
  "walk_measure a =
     (case a of
        Inl (cn, x, vis) \<Rightarrow>
          (card (nodes_of cn - set vis),
           Suc (case map_of cn x of None \<Rightarrow> 0 | Some ids \<Rightarrow> length ids))
      | Inr (cn, ns, vis) \<Rightarrow> (card ((nodes_of cn \<union> set ns) - set vis), length ns))"

termination walkGraph
proof (relation "inv_image (less_than <*lex*> less_than) walk_measure")
  show "wf (inv_image (less_than <*lex*> less_than) walk_measure)"
    by (intro wf_inv_image wf_lex_prod wf_less_than)
next
  fix cn :: connectedNodes and x :: ComponentId and vis ids :: "ComponentId list"
  assume "map_of cn x = Some ids"
  then have "nodes_of cn \<union> set ids = nodes_of cn" using map_of_nodes_of by blast
  with \<open>map_of cn x = Some ids\<close>
  show "(Inr (cn, ids, vis), Inl (cn, x, vis)) \<in> inv_image (less_than <*lex*> less_than) walk_measure"
    by (simp add: walk_measure_def)
next
  fix cn :: connectedNodes and nid :: ComponentId and rest vis :: "ComponentId list"
  have "card ((nodes_of cn \<union> set rest) - set vis) \<le> card ((nodes_of cn \<union> set (nid # rest)) - set vis)"
    by (rule card_mono) (auto simp: finite_nodes_of)
  then show "(Inr (cn, rest, vis), Inr (cn, nid # rest, vis)) \<in> inv_image (less_than <*lex*> less_than) walk_measure"
    by (auto simp: walk_measure_def)
next
  fix cn :: connectedNodes and nid :: ComponentId and rest vis :: "ComponentId list"
  assume "nid \<notin> set vis"
  then have "nodes_of cn - set (vis @ [nid]) \<subset> (nodes_of cn \<union> set (nid # rest)) - set vis"
    by auto
  then have "card (nodes_of cn - set (vis @ [nid])) < card ((nodes_of cn \<union> set (nid # rest)) - set vis)"
    by (rule psubset_card_mono [rotated]) (simp add: finite_nodes_of)
  then show "(Inl (cn, nid, vis @ [nid]), Inr (cn, nid # rest, vis)) \<in> inv_image (less_than <*lex*> less_than) walk_measure"
    by (simp add: walk_measure_def)
next
  fix cn :: connectedNodes and nid :: ComponentId and rest vis :: "ComponentId list"
  assume "nid \<notin> set vis" and "walkGraph_walkGraph_forEach_dom (Inl (cn, nid, vis @ [nid]))"
  then have "set vis \<subseteq> set (walkGraph cn nid (vis @ [nid]))"
    using walk_grows_partial(1) by fastforce
  then have "card ((nodes_of cn \<union> set rest) - set (walkGraph cn nid (vis @ [nid])))
      \<le> card ((nodes_of cn \<union> set (nid # rest)) - set vis)"
    by (intro card_mono) (auto simp: finite_nodes_of)
  then show "(Inr (cn, rest, walkGraph cn nid (vis @ [nid])), Inr (cn, nid # rest, vis))
      \<in> inv_image (less_than <*lex*> less_than) walk_measure"
    by (auto simp: walk_measure_def)
qed

declare walkGraph.simps [simp del]

text \<open>The getter \<open>getDependentComponents\<close>.\<close>

definition getDependentComponents :: "store \<Rightarrow> ComponentId \<Rightarrow> ComponentId list" where
  "getDependentComponents state componentId =
     (let connectedNodes = fold connect (allEdges state) [];
          connectedIds = [componentId]
      in walkGraph connectedNodes componentId connectedIds)"

text \<open>
  For the statement of reachability, \<open>edge_relation\<close> is the directed relation of the
  edges in the store, from \<open>fromNodeId\<close> to \<open>toNodeId\<close>.  For the proofs, \<open>targets\<close> is the
  array \<open>connectedNodes\<close> holds for a node (empty when it holds none), and \<open>arcs\<close> the relation
  these arrays encode.
\<close>

definition edge_relation :: "store \<Rightarrow> (ComponentNodeId \<times> ComponentNodeId) set" where
  "edge_relation state = (\<lambda>edge. (fromNodeId edge, toNodeId edge)) ` set (allEdges state)"

definition targets :: "connectedNodes \<Rightarrow> ComponentId \<Rightarrow> ComponentId list" where
  "targets cn x = (case map_of cn x of None \<Rightarrow> [] | Some ids \<Rightarrow> ids)"

definition arcs :: "connectedNodes \<Rightarrow> (ComponentId \<times> ComponentId) set" where
  "arcs cn = {(x, y). y \<in> set (targets cn x)}"


subsection \<open>The state after a fetch\<close>

text \<open>
  The initial state of the store, and \<open>onSuccess\<close> of \<open>FETCH_DIAGRAM_DATA\<close>:
  \<^verbatim>\<open>this.rawComponentsById = _.keyBy(response.components, "id");
  this.edgesById = _.keyBy(response.edges, "id");\<close>
  Every edge of the response is a new object.  The cells of \<open>edge_objects\<close> from
  \<open>next_object\<close> on hold no object yet; \<open>blank_edge\<close> fills them and is never read.
\<close>

definition blank_edge :: Edge where
  "blank_edge =
     \<lparr>id_e = [], fromNodeId = [], fromSocketId = [], toNodeId = [], toSocketId = [],
      isInvisible = None, changeStatus = None,
      createdInfo = \<lparr>actor = \<lparr>kind = [], label = []\<rparr>, timestamp = []\<rparr>,
      deletedInfo = None\<rparr>"

definition initial_state :: store where
  "initial_state =
     \<lparr>edge_objects = (\<lambda>ref. blank_edge), next_object = 0, rawComponentsById = [],
      edgesById = [], selectedComponentIds = [], selectedEdgeId = None\<rparr>"

definition keyBy :: "('a \<Rightarrow> 'k) \<Rightarrow> 'a list \<Rightarrow> ('k \<times> 'a) list" where
  "keyBy f xs = fold (\<lambda>x obj. AList.update (f x) x obj) xs []"

definition FETCH_DIAGRAM_DATA_onSuccess :: "RawComponent list \<Rightarrow> Edge list \<Rightarrow> store \<Rightarrow> store" where
  "FETCH_DIAGRAM_DATA_onSuccess components edges state =
     (let refs = [next_object state ..< next_object state + length edges];
          objects = fold (\<lambda>(ref, edge) h. h(ref := edge)) (zip refs edges) (edge_objects state)
      in state\<lparr>edge_objects := objects,
               next_object := next_object state + length edges,
               rawComponentsById := keyBy id_c components,
               edgesById := fold (\<lambda>(ref, edge) obj. AList.update (id_e edge) ref obj)
                              (zip refs edges) []\<rparr>)"

subsection \<open>Optimistic mutations and their rollback closures\<close>

text \<open>
  Each action hands \<open>ApiRequest\<close> an \<open>optimistic\<close> callback, which changes the state at once
  and returns the closure that undoes the change, and an \<open>onSuccess\<close> callback.  A callback
  is a function on the state; a closure reads \<open>this\<close> when it is called, so it is a
  function of the state it is applied to, with the values it captured as parameters.

  Reading a property of \<open>undefined\<close> throws a \<open>TypeError\<close>.  In every callback below the
  statement that can throw comes before the first write, so a throw leaves the state as it
  was and the result is the error alone.
\<close>

datatype error = TypeError

type_synonym rollback = "store \<Rightarrow> error + store"

text \<open>The actor and timestamp the store writes: \<open>{ timestamp, actor: { kind: "user", label: "You" } }\<close>.\<close>

definition by_you :: "string \<Rightarrow> ActorAndTimestamp" where
  "by_you ts = \<lparr>actor = \<lparr>kind = ''user'', label = ''You''\<rparr>, timestamp = ts\<rparr>"

text \<open>
  \<open>CREATE_COMPONENT_CONNECTION\<close>.  The provisional id is \<open>`temp-edge-${+new Date()}`\<close>, the
  clock in milliseconds printed in decimal; \<open>nowTs\<close> is \<open>new Date().toISOString()\<close>.
\<close>

fun decimal :: "nat \<Rightarrow> string" where
  "decimal n =
     (if n < 10 then [''0123456789'' ! n]
      else decimal (n div 10) @ [''0123456789'' ! (n mod 10)])"

declare decimal.simps [simp del]

definition tempId_at :: "nat \<Rightarrow> EdgeId" where
  "tempId_at now = ''temp-edge-'' @ decimal now"

definition CREATE_COMPONENT_CONNECTION_rollback :: "EdgeId \<Rightarrow> rollback" where
  "CREATE_COMPONENT_CONNECTION_rollback tempId state =
     Inr (state\<lparr>edgesById := AList.delete tempId (edgesById state)\<rparr>)"

definition CREATE_COMPONENT_CONNECTION_optimistic ::
  "EdgeId \<Rightarrow> string \<Rightarrow> ComponentNodeId \<times> SocketId \<Rightarrow> ComponentNodeId \<times> SocketId \<Rightarrow> store
     \<Rightarrow> store \<times> rollback" where
  "CREATE_COMPONENT_CONNECTION_optimistic tempId nowTs from to state =
     (let ref = next_object state;
          edge = \<lparr>id_e = tempId, fromNodeId = fst from, fromSocketId = snd from,
                  toNodeId = fst to, toSocketId = snd to, isInvisible = None,
                  changeStatus = Some Added, createdInfo = by_you nowTs, deletedInfo = None\<rparr>
      in (state\<lparr>edge_objects := (edge_objects state)(ref := edge),
                next_object := Suc ref,
                edgesById := AList.update tempId ref (edgesById state)\<rparr>,
          CREATE_COMPONENT_CONNECTION_rollback tempId))"

text \<open>
  \<open>onSuccess\<close>, with \<open>response.connection.id\<close>:
  \<^verbatim>\<open>if (this.edgesById[tempId]) {
    this.edgesById[response.connection.id] = this.edgesById[tempId];
    delete this.edgesById[tempId];
  }\<close>
\<close>

definition CREATE_COMPONENT_CONNECTION_onSuccess :: "EdgeId \<Rightarrow> EdgeId \<Rightarrow> store \<Rightarrow> store" where
  "CREATE_COMPONENT_CONNECTION_onSuccess tempId connection_id state =
     (case map_of (edgesById state) tempId of
        None \<Rightarrow> state
      | Some ref \<Rightarrow>
          state\<lparr>edgesById :=
                  AList.delete tempId (AList.update connection_id ref (edgesById state))\<rparr>)"

text \<open>
  \<open>DELETE_EDGE\<close>.  In the branch for an added edge the closure captures the edge object
  (\<open>originalEdge\<close>, a reference); in the other branch it captures \<open>originalStatus\<close>:
  \<^verbatim>\<open>this.edgesById[edgeId].changeStatus = originalStatus;
  delete this.edgesById[edgeId]?.deletedInfo;
  this.selectedEdgeId = edgeId;\<close>
\<close>

definition DELETE_EDGE_rollback_added :: "EdgeId \<Rightarrow> nat \<Rightarrow> rollback" where
  "DELETE_EDGE_rollback_added edgeId originalEdge state =
     Inr (state\<lparr>edgesById := AList.update edgeId originalEdge (edgesById state),
                selectedEdgeId := Some edgeId\<rparr>)"

definition DELETE_EDGE_rollback_status :: "EdgeId \<Rightarrow> ChangeStatus option \<Rightarrow> rollback" where
  "DELETE_EDGE_rollback_status edgeId originalStatus state =
     (case map_of (edgesById state) edgeId of
        None \<Rightarrow> Inl TypeError
      | Some ref \<Rightarrow>
          Inr (state\<lparr>edge_objects := (edge_objects state)
                         (ref := (edge_objects state ref)
                                   \<lparr>changeStatus := originalStatus, deletedInfo := None\<rparr>),
                     selectedEdgeId := Some edgeId\<rparr>))"

definition DELETE_EDGE_optimistic :: "string \<Rightarrow> EdgeId \<Rightarrow> store \<Rightarrow> error + store \<times> rollback" where
  "DELETE_EDGE_optimistic nowTs edgeId state =
     (case map_of (edgesById state) edgeId of
        None \<Rightarrow> Inl TypeError
      | Some ref \<Rightarrow>
          if changeStatus (edge_objects state ref) = Some Added then
            (let originalEdge = ref
             in Inr (state\<lparr>edgesById := AList.delete edgeId (edgesById state),
                           selectedEdgeId := None\<rparr>,
                     DELETE_EDGE_rollback_added edgeId originalEdge))
          else
            (let originalStatus = changeStatus (edge_objects state ref)
             in Inr (state\<lparr>edge_objects := (edge_objects state)
                              (ref := (edge_objects state ref)
                                        \<lparr>changeStatus := Some Deleted,
                                         deletedInfo := Some (by_you nowTs)\<rparr>)\<rparr>,
                     DELETE_EDGE_rollback_status edgeId originalStatus)))"

text \<open>
  \<open>RESTORE_EDGE\<close>:
  \<^verbatim>\<open>const originalEdge = this.edgesById[edgeId];
  delete this.edgesById[edgeId]?.deletedInfo;
  this.edgesById[edgeId].changeStatus = "unmodified";
  return () => { this.edgesById[edgeId] = originalEdge; this.selectedEdgeId = edgeId; };\<close>
  \<open>originalEdge\<close> is the reference to the object the next two statements write to.
\<close>

definition RESTORE_EDGE_rollback :: "EdgeId \<Rightarrow> nat \<Rightarrow> rollback" where
  "RESTORE_EDGE_rollback edgeId originalEdge state =
     Inr (state\<lparr>edgesById := AList.update edgeId originalEdge (edgesById state),
                selectedEdgeId := Some edgeId\<rparr>)"

definition RESTORE_EDGE_optimistic :: "EdgeId \<Rightarrow> store \<Rightarrow> error + store \<times> rollback" where
  "RESTORE_EDGE_optimistic edgeId state =
     (case map_of (edgesById state) edgeId of
        None \<Rightarrow> Inl TypeError
      | Some ref \<Rightarrow>
          (let originalEdge = ref
           in Inr (state\<lparr>edge_objects := (edge_objects state)
                            (ref := (edge_objects state ref)
                                      \<lparr>deletedInfo := None, changeStatus := Some Unmodified\<rparr>)\<rparr>,
                   RESTORE_EDGE_rollback edgeId originalEdge)))"

text \<open>
  \<open>DELETE_COMPONENT\<close>:
  \<^verbatim>\<open>const originalStatus = this.rawComponentsById[componentId].changeStatus;
  this.rawComponentsById[componentId].changeStatus = "deleted";
  this.rawComponentsById[componentId].deletedInfo = { ... };
  return () => {
    this.rawComponentsById[componentId].changeStatus = originalStatus;
    delete this.rawComponentsById[componentId].deletedInfo;
  };\<close>
\<close>

definition DELETE_COMPONENT_rollback :: "ComponentId \<Rightarrow> ChangeStatus \<Rightarrow> rollback" where
  "DELETE_COMPONENT_rollback componentId originalStatus state =
     (case map_of (rawComponentsById state) componentId of
        None \<Rightarrow> Inl TypeError
      | Some c \<Rightarrow>
          Inr (state\<lparr>rawComponentsById :=
                       AList.map_entry componentId
                         (\<lambda>c. c\<lparr>changeStatus_c := originalStatus, deletedInfo_c := None\<rparr>)
                         (rawComponentsById state)\<rparr>))"

definition DELETE_COMPONENT_optimistic ::
  "string \<Rightarrow> ComponentId \<Rightarrow> store \<Rightarrow> error + store \<times> rollback" where
  "DELETE_COMPONENT_optimistic nowTs componentId state =
     (case map_of (rawComponentsById state) componentId of
        None \<Rightarrow> Inl TypeError
      | Some c \<Rightarrow>
          (let originalStatus = changeStatus_c c
           in Inr (state\<lparr>rawComponentsById :=
                            AList.map_entry componentId
                              (\<lambda>c. c\<lparr>changeStatus_c := Deleted,
                                      deletedInfo_c := Some (by_you nowTs)\<rparr>)
                              (rawComponentsById state)\<rparr>,
                   DELETE_COMPONENT_rollback componentId originalStatus)))"

text \<open>
  When the remote call fails, \<open>ApiRequest\<close> calls the closure \<open>optimistic\<close> returned, on the
  state as it is then.  \<open>rollback_at_once\<close> is the case where nothing else touched the state
  in between.
\<close>

definition rollback_at_once :: "error + store \<times> rollback \<Rightarrow> error + store" where
  "rollback_at_once r = (case r of Inl e \<Rightarrow> Inl e | Inr (state, undo) \<Rightarrow> undo state)"

text \<open>
  What the store shows: the edge, and the component, an id stands for.  \<open>refs_allocated\<close>
  says that every reference in the edge map was handed out before \<open>next_object\<close>, which
  the initial state satisfies and every action keeps.
\<close>

definition edge_at :: "store \<Rightarrow> EdgeId \<Rightarrow> Edge option" where
  "edge_at state edgeId = map_option (edge_objects state) (map_of (edgesById state) edgeId)"

definition component_at :: "store \<Rightarrow> ComponentId \<Rightarrow> RawComponent option" where
  "component_at state componentId = map_of (rawComponentsById state) componentId"

definition refs_allocated :: "store \<Rightarrow> bool" where
  "refs_allocated state = list_all (\<lambda>(k, ref). ref < next_object state) (edgesById state)"



section \<open>Dependent-value status tracker: the migration \<open>U0762__status_updates.sql\<close>\<close>

text \<open>
  The table \<open>status_updates\<close> and the PL/pgSQL function \<open>status_update_create_v1\<close>.  A
  \<open>bigint\<close> is a 64-bit signed integer.  A \<open>jsonb\<close> value is a JSON tree; an object is a
  list of members, read by key with \<open>json_get\<close> (PostgreSQL's \<open>->\<close>).
\<close>

type_synonym bigint = "64 word"

datatype json =
    JNull
  | JBool bool
  | JNumber int
  | JString string
  | JArray "json list"
  | JObject "(string \<times> json) list"

definition json_get :: "json \<Rightarrow> string \<Rightarrow> json option" where
  "json_get j k = (case j of JObject members \<Rightarrow> map_of members k | _ \<Rightarrow> None)"

text \<open>
  \<open>jsonb_build_object\<close> on alternating keys and values (a \<open>bigint\<close> becomes a JSON number):
  a later value for a key replaces the earlier one.
\<close>

definition jsonb_build_object :: "(string \<times> json) list \<Rightarrow> json" where
  "jsonb_build_object members = JObject (fold (\<lambda>(k, v). AList.update k v) members [])"

text \<open>
  \<open>tenancy_record_v1\<close> and \<open>tenancy_json_to_columns_v1\<close> are declared by an earlier
  migration, outside the sources at hand.  The record has the four columns the \<open>INSERT\<close>
  reads, each of which may be null; the conversion is a parameter of the model, and may
  raise.
\<close>

datatype sql_error = TenancyConversionFailed | NotNullViolation | SequenceExhausted

record tenancy_record_v1 =
  tenancy_universal :: "bool option"
  tenancy_billing_account_ids :: "bigint list option"
  tenancy_organization_ids :: "bigint list option"
  tenancy_workspace_ids :: "bigint list option"

record status_updates_row =
  pk :: bigint
  row_tenancy_universal :: bool
  row_tenancy_billing_account_ids :: "bigint list option"
  row_tenancy_organization_ids :: "bigint list option"
  row_tenancy_workspace_ids :: "bigint list option"
  created_at :: string
  updated_at :: string
  data :: json

text \<open>
  The database: the rows of the table in insertion order, and the last value of the
  sequence behind the \<open>bigserial\<close> primary key (0 before the first \<open>nextval\<close>).
\<close>

record database =
  status_updates :: "status_updates_row list"
  status_updates_pk_seq :: int

definition bigint_array_json :: "bigint list option \<Rightarrow> json" where
  "bigint_array_json a = (case a of None \<Rightarrow> JNull | Some xs \<Rightarrow> JArray (map (\<lambda>x. JNumber (sint x)) xs))"

definition row_to_json :: "status_updates_row \<Rightarrow> json" where
  "row_to_json r =
     JObject
       [(''pk'', JNumber (sint (pk r))),
        (''tenancy_universal'', JBool (row_tenancy_universal r)),
        (''tenancy_billing_account_ids'', bigint_array_json (row_tenancy_billing_account_ids r)),
        (''tenancy_organization_ids'', bigint_array_json (row_tenancy_organization_ids r)),
        (''tenancy_workspace_ids'', bigint_array_json (row_tenancy_workspace_ids r)),
        (''created_at'', JString (created_at r)),
        (''updated_at'', JString (updated_at r)),
        (''data'', data r)]"

text \<open>
  The function.  \<open>now\<close> is what \<open>NOW()\<close> gives in the calling transaction.  The \<open>INSERT\<close>
  draws the primary key from the sequence, fills \<open>created_at\<close> and \<open>updated_at\<close> from their
  defaults, and fails on a null \<open>tenancy_universal\<close> (the column is \<open>NOT NULL\<close>); an error
  leaves the database as it was.
\<close>

definition status_update_create_v1 ::
  "(json \<Rightarrow> sql_error + tenancy_record_v1) \<Rightarrow> string \<Rightarrow> bigint \<Rightarrow> json \<Rightarrow> database
     \<Rightarrow> sql_error + json \<times> database" where
  "status_update_create_v1 tenancy_json_to_columns_v1 now this_attribute_value_id this_tenancy db =
     (case tenancy_json_to_columns_v1 this_tenancy of
        Inl e \<Rightarrow> Inl e
      | Inr this_tenancy_record \<Rightarrow>
          (let this_data = jsonb_build_object
                 [(''attribute_value_id'', JNumber (sint this_attribute_value_id)),
                  (''dependent_values_metadata'', JObject []),
                  (''queued_dependent_value_ids'', JArray []),
                  (''running_dependent_value_ids'', JArray []),
                  (''completed_dependent_value_ids'', JArray [])]
           in if status_updates_pk_seq db \<ge> 2 ^ 63 - 1 then Inl SequenceExhausted
              else (case tenancy_universal this_tenancy_record of
                      None \<Rightarrow> Inl NotNullViolation
                    | Some universal \<Rightarrow>
                        (let this_new_row =
                               \<lparr>pk = word_of_int (status_updates_pk_seq db + 1),
                                row_tenancy_universal = universal,
                                row_tenancy_billing_account_ids =
                                  tenancy_billing_account_ids this_tenancy_record,
                                row_tenancy_organization_ids =
                                  tenancy_organization_ids this_tenancy_record,
                                row_tenancy_workspace_ids =
                                  tenancy_workspace_ids this_tenancy_record,
                                created_at = now, updated_at = now, data = this_data\<rparr>
                         in Inr (row_to_json this_new_row,
                                 db\<lparr>status_updates := status_updates db @ [this_new_row],
                                    status_updates_pk_seq := status_updates_pk_seq db + 1\<rparr>)))))"


section \<open>Example data\<close>

text \<open>
  Example data for the concrete evaluations below: an action with the given key and
  parents (its other fields fixed), and a change set holding a given action map.
\<close>

definition example_action :: "string \<Rightarrow> string list \<Rightarrow> string \<times> string ActionInstance" where
  "example_action k ps =
     (k, \<lparr>id_a = k, actionPrototypeId = ''prototype'', name_a = ''create'',
          componentId_a = ''component'', actor_a = None, parents = ps\<rparr>)"

definition example_change_set ::
  "(string \<times> string ActionInstance) list \<Rightarrow> string ChangeSet" where
  "example_change_set g = \<lparr>id_cs = ''cs'', actions_cs = g\<rparr>"

text \<open>
  An edge \<open>k\<close> from node \<open>a\<close> to node \<open>b\<close> and a component, as a fetch delivers them, and
  the state of the store after a first fetch of given components and edges.
\<close>

definition example_edge :: "EdgeId \<Rightarrow> ComponentNodeId \<Rightarrow> ComponentNodeId \<Rightarrow> Edge" where
  "example_edge k a b =
     \<lparr>id_e = k, fromNodeId = a, fromSocketId = ''out'', toNodeId = b, toSocketId = ''in'',
      isInvisible = None, changeStatus = Some Unmodified,
      createdInfo = \<lparr>actor = \<lparr>kind = ''system'', label = ''System''\<rparr>, timestamp = ''t0''\<rparr>,
      deletedInfo = None\<rparr>"

definition example_component :: "ComponentId \<Rightarrow> ComponentNodeId \<Rightarrow> RawComponent" where
  "example_component k n =
     \<lparr>id_c = k, nodeId = n, displayName = ''server'', parentNodeId = None, childNodeIds = [],
      changeStatus_c = Unmodified,
      createdInfo_c = \<lparr>actor = \<lparr>kind = ''system'', label = ''System''\<rparr>, timestamp = ''t0''\<rparr>,
      updatedInfo_c = \<lparr>actor = \<lparr>kind = ''system'', label = ''System''\<rparr>, timestamp = ''t0''\<rparr>,
      deletedInfo_c = None\<rparr>"

definition example_store :: "RawComponent list \<Rightarrow> Edge list \<Rightarrow> store" where
  "example_store components edges = FETCH_DIAGRAM_DATA_onSuccess components edges initial_state"

text \<open>
  A stand-in for the tenancy conversion: it reads \<open>tenancy_universal\<close> and fails on JSON
  without it.
\<close>

definition example_tenancy :: "json \<Rightarrow> sql_error + tenancy_record_v1" where
  "example_tenancy j =
     (case json_get j ''tenancy_universal'' of
        Some (JBool b) \<Rightarrow>
          Inr \<lparr>tenancy_universal = Some b, tenancy_billing_account_ids = Some [],
               tenancy_organization_ids = Some [], tenancy_workspace_ids = Some [1]\<rparr>
      | _ \<Rightarrow> Inl TenancyConversionFailed)"


section \<open>Properties of the action scheduler\<close>

subsection \<open>What one removal does to a parents list\<close>

lemma findIndex_ge: "- 1 \<le> findIndex P xs"
  by (induction xs) (auto simp: Let_def)

lemma findIndex_none: "findIndex P xs = - 1 \<longleftrightarrow> (\<forall>x\<in>set xs. \<not> P x)"
proof (induction xs)
  case Nil
  then show ?case by simp
next
  case (Cons x xs)
  have "- 1 \<le> findIndex P xs" by (rule findIndex_ge)
  with Cons show ?case by (auto simp: Let_def)
qed

lemma take_findIndex:
  "findIndex P xs \<noteq> - 1 \<Longrightarrow> take (nat (findIndex P xs)) xs = takeWhile (\<lambda>x. \<not> P x) xs"
proof (induction xs)
  case Nil
  then show ?case by simp
next
  case (Cons x xs)
  show ?case
  proof (cases "P x")
    case True
    then show ?thesis by simp
  next
    case False
    with Cons.prems have ne: "findIndex P xs \<noteq> - 1" by (auto simp: Let_def split: if_splits)
    moreover have "- 1 \<le> findIndex P xs" by (rule findIndex_ge)
    ultimately have "0 \<le> findIndex P xs" by linarith
    then have "nat (findIndex P xs + 1) = Suc (nat (findIndex P xs))" by linarith
    with False ne Cons.IH show ?thesis by (simp add: Let_def)
  qed
qed

lemma strip_parent_takeWhile:
  "strip_parent r a = a\<lparr>parents := takeWhile (\<lambda>p. p \<noteq> r) (parents a)\<rparr>"
proof (cases "findIndex (\<lambda>p. p = r) (parents a) = - 1")
  case True
  then have "takeWhile (\<lambda>p. p \<noteq> r) (parents a) = parents a"
    by (simp add: findIndex_none takeWhile_eq_all_conv)
  then have "a\<lparr>parents := takeWhile (\<lambda>p. p \<noteq> r) (parents a)\<rparr> = a" by simp
  moreover from True have "strip_parent r a = a" by (simp add: strip_parent_def)
  ultimately show ?thesis by simp
next
  case False
  then show ?thesis
    using take_findIndex [of "\<lambda>p. p = r" "parents a"]
    by (simp add: strip_parent_def splice_def)
qed

lemma remove_action_truncates:
  "remove_action removeId graph =
     map (\<lambda>(k, a). (k, a\<lparr>parents := takeWhile (\<lambda>p. p \<noteq> removeId) (parents a)\<rparr>))
       (filter (\<lambda>(k, a). k \<noteq> removeId) graph)"
proof -
  have "AList.delete removeId graph = filter (\<lambda>(k, a). k \<noteq> removeId) graph"
    by (induction graph) auto
  then show ?thesis by (simp add: remove_action_def strip_parent_takeWhile)
qed

lemma keys_remove_action:
  "map fst (remove_action r g) = filter (\<lambda>k. k \<noteq> r) (map fst g)"
  by (induction g) (auto simp: remove_action_def)

lemma keys_fold_remove_action:
  "map fst (fold remove_action rs g) = filter (\<lambda>k. k \<notin> set rs) (map fst g)"
proof (induction rs arbitrary: g)
  case Nil
  then show ?case by simp
next
  case (Cons r rs)
  have "filter (\<lambda>k. k \<notin> set rs) (filter (\<lambda>k. k \<noteq> r) (map fst g))
          = filter (\<lambda>k. k \<notin> set (r # rs)) (map fst g)"
    by (induction g) auto
  with Cons show ?case by (simp add: keys_remove_action)
qed

subsection \<open>The loop\<close>

lemmas while_induct =
  proposedActions_while.raw_induct [rotated 1, consumes 1, case_names step]

lemma ready_entries_stuck:
  "\<forall>(k, a)\<in>set g. parents a \<noteq> [] \<Longrightarrow> ready_entries g = []"
  by (auto simp: ready_entries_def sortedEntries_def filter_empty_conv)

lemma iteration_stuck:
  "\<forall>(k, a)\<in>set g. parents a \<noteq> [] \<Longrightarrow> iteration g acc = (g, acc)"
  by (simp add: iteration_def ready_entries_stuck)

lemma while_stuck_None:
  assumes "g \<noteq> []" and "\<forall>(k, a)\<in>set g. parents a \<noteq> []"
  shows "proposedActions_while g acc = None"
proof (rule ccontr)
  assume "proposedActions_while g acc \<noteq> None"
  then obtain y where "proposedActions_while g acc = Some y" by auto
  then have "\<not> (g \<noteq> [] \<and> (\<forall>(k, a)\<in>set g. parents a \<noteq> []))"
  proof (induction rule: while_induct)
    case (step w graph actions y)
    show ?case
    proof
      assume st: "graph \<noteq> [] \<and> (\<forall>(k, a)\<in>set graph. parents a \<noteq> [])"
      with step(2) have "w graph actions = Some y" by (simp add: iteration_stuck)
      from step(1) [OF this] st show False by simp
    qed
  qed
  with assms show False by simp
qed

lemma while_final_empty:
  "proposedActions_while g acc = Some (out, g') \<Longrightarrow> g' = []"
proof (induction g acc "(out, g')" rule: while_induct)
  case (step w graph actions)
  then show ?case by (auto split: if_splits prod.splits)
qed

lemma while_empty: "proposedActions_while [] acc = Some (acc, [])"
  by (simp add: proposedActions_while.simps)

subsection \<open>Cyclic action sets\<close>

text \<open>
  C1 (as amended).  The getter has no cycle detection and no error result.  Whenever the
  change set's action map is non-empty and none of its actions has an empty parents list,
  as for X with parents [Y] and Y with parents [X], a pass of the loop pushes and removes
  nothing, the map stays as it is, and the getter never returns.
\<close>

theorem proposedActions_no_cycle_detection:
  assumes "actions_cs cs \<noteq> []"
    and "\<forall>(k, a)\<in>set (actions_cs cs). parents a \<noteq> []"
  shows "proposedActions (Some cs) = None"
  using while_stuck_None [OF assms] by (simp add: proposedActions_def)

text \<open>The theorem at a three-element cycle X \<open>\<leftarrow>\<close> Y \<open>\<leftarrow>\<close> Z \<open>\<leftarrow>\<close> X.\<close>

theorem proposedActions_no_cycle_detection_witness:
  "actions_cs (example_change_set
      [example_action ''X'' [''Z''], example_action ''Y'' [''X''], example_action ''Z'' [''Y'']])
     \<noteq> []
   \<and> proposedActions (Some (example_change_set
      [example_action ''X'' [''Z''], example_action ''Y'' [''X''], example_action ''Z'' [''Y'']]))
     = None"
  using proposedActions_no_cycle_detection [of "example_change_set
      [example_action ''X'' [''Z''], example_action ''Y'' [''X''], example_action ''Z'' [''Y'']]"]
  by (simp add: example_change_set_def example_action_def)

text \<open>
  C1 as stated fails on the spec's own example: for X with parents [Y] and Y with parents
  [X] the getter does not return at all, so it returns no \<open>CycleDetected\<close> error.
\<close>

theorem proposedActions_cycle_counterexample:
  "proposedActions (Some (example_change_set
      [example_action ''X'' [''Y''], example_action ''Y'' [''X'']])) = None"
proof -
  have "proposedActions_while [example_action ''X'' [''Y''], example_action ''Y'' [''X'']] []
          = None"
    by (rule while_stuck_None) (simp_all add: example_action_def)
  then show ?thesis by (simp add: proposedActions_def example_change_set_def)
qed

subsection \<open>Topological order\<close>

text \<open>
  C2 (the code at the failing input).  The action map a (no parents), b (parents [a, c]),
  c (parents [a]) is acyclic.  Removing a truncates b's parents list at a's position, which
  drops c from it as well, so b is scheduled in the same pass as c and, sorted by id,
  before it: the output is a, b, c although c is a parent of b.
\<close>

theorem proposedActions_breaks_topological_order:
  "map_option (\<lambda>(actions, cs). (map id_a actions, map_option actions_cs cs))
     (proposedActions (Some (example_change_set
        [example_action ''a'' [], example_action ''b'' [''a'', ''c''],
         example_action ''c'' [''a'']])))
   = Some ([''a'', ''b'', ''c''], Some [])"
  by code_simp

subsection \<open>The getter consumes its input\<close>

lemma proposedActions_ABCD:
  "proposedActions (Some (example_change_set
       [example_action ''A'' [], example_action ''B'' [''A''],
        example_action ''C'' [''A''], example_action ''D'' [''B'', ''C'']]))
     = Some (map (\<lambda>k. snd (example_action k [])) [''A'', ''B'', ''C'', ''D''],
             Some (example_change_set []))"
  by code_simp

lemma remove_action_fun:
  "remove_action =
     (\<lambda>removeId g.
        map (\<lambda>(k, a). (k, a\<lparr>parents := takeWhile (\<lambda>p. p \<noteq> removeId) (parents a)\<rparr>))
          (filter (\<lambda>(k, a). k \<noteq> removeId) g))"
  by (intro ext) (rule remove_action_truncates)

lemma ready_entries_filter:
  "ready_entries graph = filter (\<lambda>(k, a). parents a = []) (sort_key fst graph)"
  by (simp add: ready_entries_def sortedEntries_def)

lemma iteration_pass:
  "iteration graph actions =
     (fold (\<lambda>removeId g.
              map (\<lambda>(k, a). (k, a\<lparr>parents := takeWhile (\<lambda>p. p \<noteq> removeId) (parents a)\<rparr>))
                (filter (\<lambda>(k, a). k \<noteq> removeId) g))
        (map fst (filter (\<lambda>(k, a). parents a = []) (sort_key fst graph))) graph,
      actions @ map snd (filter (\<lambda>(k, a). parents a = []) (sort_key fst graph)))"
  unfolding iteration_def Let_def ready_entries_filter remove_action_fun ..

lemma while_pass:
  "graph \<noteq> [] \<Longrightarrow>
   proposedActions_while graph actions =
     proposedActions_while
       (fold (\<lambda>removeId g.
                map (\<lambda>(k, a). (k, a\<lparr>parents := takeWhile (\<lambda>p. p \<noteq> removeId) (parents a)\<rparr>))
                  (filter (\<lambda>(k, a). k \<noteq> removeId) g))
          (map fst (filter (\<lambda>(k, a). parents a = []) (sort_key fst graph))) graph)
       (actions @ map snd (filter (\<lambda>(k, a). parents a = []) (sort_key fst graph)))"
  by (subst proposedActions_while.simps) (simp add: iteration_pass)

lemma pass_xay:
  "fold (\<lambda>removeId g.
           map (\<lambda>(k, a). (k, a\<lparr>parents := takeWhile (\<lambda>p. p \<noteq> removeId) (parents a)\<rparr>))
             (filter (\<lambda>(k, a). k \<noteq> removeId) g))
     (map fst (filter (\<lambda>(k, a). parents a = [])
        (sort_key fst [example_action ''a'' [], example_action ''b'' [''x'', ''a'', ''y'']])))
     [example_action ''a'' [], example_action ''b'' [''x'', ''a'', ''y'']]
   = [example_action ''b'' [''x'']]"
  "map snd (filter (\<lambda>(k, a). parents a = [])
        (sort_key fst [example_action ''a'' [], example_action ''b'' [''x'', ''a'', ''y'']]))
   = [snd (example_action ''a'' [])]"
  by code_simp+

text \<open>
  C10.  The getter mutates the change set's action map.  When it returns, the map it leaves
  behind is empty, so evaluating the getter again on the same change set returns the empty
  list.  One pass of the loop takes the actions without parents, in the order of their ids,
  appends them to the output, and for each of their ids in turn deletes the entry under
  that id and cuts the parents list of every remaining action at the first occurrence of
  the id: that occurrence and everything after it go.  On a non-empty map the loop, and the
  getter on a change set with a non-empty map, continue on the map and output such a pass
  leaves.
\<close>

theorem proposedActions_consumes_graph:
  "(proposedActions (Some cs) = Some (out, cs') \<longrightarrow>
      cs' = Some (cs\<lparr>actions_cs := []\<rparr>) \<and> proposedActions cs' = Some ([], cs'))
   \<and> iteration graph actions =
       (fold (\<lambda>removeId g.
                map (\<lambda>(k, a). (k, a\<lparr>parents := takeWhile (\<lambda>p. p \<noteq> removeId) (parents a)\<rparr>))
                  (filter (\<lambda>(k, a). k \<noteq> removeId) g))
          (map fst (filter (\<lambda>(k, a). parents a = []) (sort_key fst graph))) graph,
        actions @ map snd (filter (\<lambda>(k, a). parents a = []) (sort_key fst graph)))
   \<and> (graph \<noteq> [] \<longrightarrow>
        proposedActions_while graph actions =
          proposedActions_while (fst (iteration graph actions)) (snd (iteration graph actions)))
   \<and> (actions_cs cs \<noteq> [] \<longrightarrow>
        proposedActions (Some cs) =
          map_option (\<lambda>(actions, graph). (actions, Some (cs\<lparr>actions_cs := graph\<rparr>)))
            (proposedActions_while
               (fold (\<lambda>removeId g.
                        map (\<lambda>(k, a).
                               (k, a\<lparr>parents := takeWhile (\<lambda>p. p \<noteq> removeId) (parents a)\<rparr>))
                          (filter (\<lambda>(k, a). k \<noteq> removeId) g))
                  (map fst (filter (\<lambda>(k, a). parents a = []) (sort_key fst (actions_cs cs))))
                  (actions_cs cs))
               (map snd (filter (\<lambda>(k, a). parents a = []) (sort_key fst (actions_cs cs))))))
   \<and> map fst (fst (iteration graph actions))
       = filter (\<lambda>k. k \<notin> set (map fst (ready_entries graph))) (map fst graph)
   \<and> remove_action removeId graph =
       map (\<lambda>(k, a). (k, a\<lparr>parents := takeWhile (\<lambda>p. p \<noteq> removeId) (parents a)\<rparr>))
         (filter (\<lambda>(k, a). k \<noteq> removeId) graph)"
proof (intro conjI impI)
  assume "proposedActions (Some cs) = Some (out, cs')"
  then obtain g' where w: "proposedActions_while (actions_cs cs) [] = Some (out, g')"
    and cs': "cs' = Some (cs\<lparr>actions_cs := g'\<rparr>)"
    by (auto simp: proposedActions_def)
  from w have "g' = []" by (rule while_final_empty)
  with cs' show "cs' = Some (cs\<lparr>actions_cs := []\<rparr>)" by simp
  then show "proposedActions cs' = Some ([], cs')"
    by (simp add: proposedActions_def while_empty)
next
  show "iteration graph actions =
       (fold (\<lambda>removeId g.
                map (\<lambda>(k, a). (k, a\<lparr>parents := takeWhile (\<lambda>p. p \<noteq> removeId) (parents a)\<rparr>))
                  (filter (\<lambda>(k, a). k \<noteq> removeId) g))
          (map fst (filter (\<lambda>(k, a). parents a = []) (sort_key fst graph))) graph,
        actions @ map snd (filter (\<lambda>(k, a). parents a = []) (sort_key fst graph)))"
    by (rule iteration_pass)
next
  assume "graph \<noteq> []"
  then show "proposedActions_while graph actions =
          proposedActions_while (fst (iteration graph actions)) (snd (iteration graph actions))"
    by (subst proposedActions_while.simps) (simp add: case_prod_beta)
next
  assume "actions_cs cs \<noteq> []"
  then show "proposedActions (Some cs) =
          map_option (\<lambda>(actions, graph). (actions, Some (cs\<lparr>actions_cs := graph\<rparr>)))
            (proposedActions_while
               (fold (\<lambda>removeId g.
                        map (\<lambda>(k, a).
                               (k, a\<lparr>parents := takeWhile (\<lambda>p. p \<noteq> removeId) (parents a)\<rparr>))
                          (filter (\<lambda>(k, a). k \<noteq> removeId) g))
                  (map fst (filter (\<lambda>(k, a). parents a = []) (sort_key fst (actions_cs cs))))
                  (actions_cs cs))
               (map snd (filter (\<lambda>(k, a). parents a = []) (sort_key fst (actions_cs cs)))))"
    using while_pass [of "actions_cs cs" "[]"] by (simp add: proposedActions_def)
next
  show "map fst (fst (iteration graph actions))
       = filter (\<lambda>k. k \<notin> set (map fst (ready_entries graph))) (map fst graph)"
    by (simp add: iteration_def keys_fold_remove_action)
next
  show "remove_action removeId graph =
       map (\<lambda>(k, a). (k, a\<lparr>parents := takeWhile (\<lambda>p. p \<noteq> removeId) (parents a)\<rparr>))
         (filter (\<lambda>(k, a). k \<noteq> removeId) graph)"
    by (rule remove_action_truncates)
qed

text \<open>
  The theorem at the spec's example A, B (parents [A]), C (parents [A]), D (parents
  [B, C]): the first evaluation returns A, B, C, D, each with its parents list emptied, and
  leaves the map empty; the second evaluation returns the empty list.  And at the map a (no
  parents), b (parents [x, a, y]): the first pass outputs a and leaves b with parents [x],
  and the loop and the getter go on from there.
\<close>

theorem proposedActions_consumes_graph_witness:
  "proposedActions (Some (example_change_set
       [example_action ''A'' [], example_action ''B'' [''A''],
        example_action ''C'' [''A''], example_action ''D'' [''B'', ''C'']]))
     = Some (map (\<lambda>k. snd (example_action k [])) [''A'', ''B'', ''C'', ''D''],
             Some (example_change_set []))
   \<and> proposedActions (Some (example_change_set [])) = Some ([], Some (example_change_set []))
   \<and> iteration [example_action ''a'' [], example_action ''b'' [''x'', ''a'', ''y'']] []
     = ([example_action ''b'' [''x'']], [snd (example_action ''a'' [])])
   \<and> proposedActions_while [example_action ''a'' [], example_action ''b'' [''x'', ''a'', ''y'']] []
     = proposedActions_while [example_action ''b'' [''x'']] [snd (example_action ''a'' [])]
   \<and> proposedActions
       (Some (example_change_set
          [example_action ''a'' [], example_action ''b'' [''x'', ''a'', ''y'']]))
     = map_option (\<lambda>(actions, graph). (actions, Some (example_change_set graph)))
         (proposedActions_while [example_action ''b'' [''x'']] [snd (example_action ''a'' [])])"
proof -
  let ?abcd = "example_change_set
       [example_action ''A'' [], example_action ''B'' [''A''],
        example_action ''C'' [''A''], example_action ''D'' [''B'', ''C'']]"
  let ?g = "[example_action ''a'' [], example_action ''b'' [''x'', ''a'', ''y'']]"
  note A = proposedActions_consumes_graph [of ?abcd
       "map (\<lambda>k. snd (example_action k [])) [''A'', ''B'', ''C'', ''D'']"
       "Some (example_change_set [])" "[]" "[]" "[]"]
  note B = proposedActions_consumes_graph [of "example_change_set ?g" "[]" None ?g "[]" "[]"]
  have ne: "?g \<noteq> []" "actions_cs (example_change_set ?g) \<noteq> []"
    by (simp_all add: example_change_set_def)
  have cs: "actions_cs (example_change_set ?g) = ?g"
    "\<And>graph. (example_change_set ?g)\<lparr>actions_cs := graph\<rparr> = example_change_set graph"
    by (simp_all add: example_change_set_def)
  from A proposedActions_ABCD
  have 1: "proposedActions (Some (example_change_set [])) = Some ([], Some (example_change_set []))"
    by blast
  from B have 2: "iteration ?g [] = ([example_action ''b'' [''x'']], [snd (example_action ''a'' [])])"
    unfolding pass_xay by simp
  from B ne(1) have "proposedActions_while ?g [] =
      proposedActions_while (fst (iteration ?g [])) (snd (iteration ?g []))"
    by blast
  then have 3: "proposedActions_while ?g []
      = proposedActions_while [example_action ''b'' [''x'']] [snd (example_action ''a'' [])]"
    unfolding 2 by simp
  from B ne(2) have 4: "proposedActions (Some (example_change_set ?g))
     = map_option (\<lambda>(actions, graph). (actions, Some (example_change_set graph)))
         (proposedActions_while [example_action ''b'' [''x'']] [snd (example_action ''a'' [])])"
    unfolding cs pass_xay by blast
  from proposedActions_ABCD 1 2 3 4 show ?thesis by blast
qed

section \<open>Properties of reachability\<close>

lemma walkGraph_targets: "walkGraph cn x vis = walkGraph_forEach cn (targets cn x) vis"
  by (simp add: walkGraph.simps targets_def split: option.splits)

lemma targets_connect:
  "targets (connect e cn) x = targets cn x @ (if fromNodeId e = x then [toNodeId e] else [])"
  by (auto simp: targets_def connect_def Let_def map_of_map_entry update_conv' split: option.splits)

lemma targets_fold_connect:
  "targets (fold connect es cn) x = targets cn x @ map toNodeId (filter (\<lambda>e. fromNodeId e = x) es)"
  by (induction es arbitrary: cn) (auto simp: targets_connect)

lemma targets_Nil: "targets [] x = []"
  by (simp add: targets_def)

lemma arcs_fold_connect:
  "arcs (fold connect es []) = (\<lambda>e. (fromNodeId e, toNodeId e)) ` set es"
  unfolding arcs_def targets_fold_connect targets_Nil by auto

lemma walk_invariant:
  "set vis \<subseteq> set (walkGraph cn x vis)
   \<and> set (targets cn x) \<subseteq> set (walkGraph cn x vis)
   \<and> (\<forall>y\<in>set (walkGraph cn x vis) - set vis. set (targets cn y) \<subseteq> set (walkGraph cn x vis))
   \<and> set (walkGraph cn x vis) \<subseteq> set vis \<union> (arcs cn)\<^sup>* `` {x}
   \<and> (distinct vis \<longrightarrow> distinct (walkGraph cn x vis))"
  "set vis \<subseteq> set (walkGraph_forEach cn ns vis)
   \<and> set ns \<subseteq> set (walkGraph_forEach cn ns vis)
   \<and> (\<forall>y\<in>set (walkGraph_forEach cn ns vis) - set vis.
         set (targets cn y) \<subseteq> set (walkGraph_forEach cn ns vis))
   \<and> set (walkGraph_forEach cn ns vis) \<subseteq> set vis \<union> (arcs cn)\<^sup>* `` set ns
   \<and> (distinct vis \<longrightarrow> distinct (walkGraph_forEach cn ns vis))"
proof (induction cn x vis and cn ns vis rule: walkGraph_walkGraph_forEach.induct)
  case (1 cn x vis)
  show ?case
  proof (cases "map_of cn x")
    case None
    then show ?thesis by (simp add: walkGraph.simps targets_def)
  next
    case (Some ids)
    have sub: "(arcs cn)\<^sup>* `` set ids \<subseteq> (arcs cn)\<^sup>* `` {x}"
    proof
      fix z assume "z \<in> (arcs cn)\<^sup>* `` set ids"
      then obtain y where "y \<in> set ids" and yz: "(y, z) \<in> (arcs cn)\<^sup>*" by auto
      with Some have "(x, y) \<in> arcs cn" by (simp add: arcs_def targets_def)
      with yz show "z \<in> (arcs cn)\<^sup>* `` {x}" by (auto intro: converse_rtrancl_into_rtrancl)
    qed
    from Some have t: "targets cn x = ids" by (simp add: targets_def)
    from "1.IH" [OF Some] sub show ?thesis
      unfolding t walkGraph.simps [of cn x vis] Some option.case by blast
  qed
next
  case (2 cn vis)
  then show ?case by simp
next
  case (3 cn nid rest vis)
  show ?case
  proof (cases "nid \<in> set vis")
    case True
    with "3.IH"(1) [OF True] show ?thesis by auto
  next
    case False
    let ?v1 = "walkGraph cn nid (vis @ [nid])"
    let ?v2 = "walkGraph_forEach cn rest ?v1"
    from False have eq: "walkGraph_forEach cn (nid # rest) vis = ?v2" by simp
    note ih1 = "3.IH"(2) [OF False]
    note ih2 = "3.IH"(3) [OF False]
    have a: "set vis \<subseteq> set ?v2" using ih1 ih2 by auto
    have b: "set (nid # rest) \<subseteq> set ?v2" using ih1 ih2 by auto
    have c: "\<forall>y\<in>set ?v2 - set vis. set (targets cn y) \<subseteq> set ?v2"
    proof
      fix y assume y: "y \<in> set ?v2 - set vis"
      show "set (targets cn y) \<subseteq> set ?v2"
      proof (cases "y \<in> set ?v1")
        case False
        with y ih2 show ?thesis by blast
      next
        case True
        have "set (targets cn y) \<subseteq> set ?v1"
        proof (cases "y = nid")
          case True
          with ih1 show ?thesis by blast
        next
          case False
          with True y have "y \<in> set ?v1 - set (vis @ [nid])" by auto
          with ih1 show ?thesis by blast
        qed
        with ih2 show ?thesis by blast
      qed
    qed
    have d: "set ?v2 \<subseteq> set vis \<union> (arcs cn)\<^sup>* `` set (nid # rest)"
    proof
      fix z assume "z \<in> set ?v2"
      with ih2 have "z \<in> set ?v1 \<or> z \<in> (arcs cn)\<^sup>* `` set rest" by blast
      then show "z \<in> set vis \<union> (arcs cn)\<^sup>* `` set (nid # rest)"
      proof
        assume "z \<in> set ?v1"
        with ih1 have "z \<in> set (vis @ [nid]) \<or> z \<in> (arcs cn)\<^sup>* `` {nid}" by blast
        then show ?thesis by auto
      next
        assume "z \<in> (arcs cn)\<^sup>* `` set rest"
        then show ?thesis by auto
      qed
    qed
    have e: "distinct vis \<longrightarrow> distinct ?v2" using False ih1 ih2 by simp
    from a b c d e show ?thesis unfolding eq by blast
  qed
qed

lemma closed_contains_reachable:
  assumes "x \<in> S" and "\<forall>y\<in>S. \<forall>z. (y, z) \<in> R \<longrightarrow> z \<in> S"
  shows "R\<^sup>* `` {x} \<subseteq> S"
proof
  fix z assume "z \<in> R\<^sup>* `` {x}"
  then have "(x, z) \<in> R\<^sup>*" by simp
  then show "z \<in> S" using assms by (induction rule: rtrancl_induct) auto
qed

lemma walkGraph_root:
  "set (walkGraph cn x [x]) = (arcs cn)\<^sup>* `` {x}" "distinct (walkGraph cn x [x])"
proof -
  let ?v = "walkGraph cn x [x]"
  note inv = walk_invariant(1) [of "[x]" cn x]
  have "\<forall>y\<in>set ?v. \<forall>z. (y, z) \<in> arcs cn \<longrightarrow> z \<in> set ?v"
  proof (intro ballI allI impI)
    fix y z assume y: "y \<in> set ?v" and "(y, z) \<in> arcs cn"
    then have z: "z \<in> set (targets cn y)" by (simp add: arcs_def)
    show "z \<in> set ?v"
    proof (cases "y = x")
      case True
      with z inv show ?thesis by blast
    next
      case False
      with y have "y \<in> set ?v - set [x]" by simp
      with z inv show ?thesis by blast
    qed
  qed
  moreover have "x \<in> set ?v" using inv by auto
  ultimately have "(arcs cn)\<^sup>* `` {x} \<subseteq> set ?v" by (intro closed_contains_reachable) auto
  moreover have "set ?v \<subseteq> (arcs cn)\<^sup>* `` {x}" using inv by auto
  ultimately show "set ?v = (arcs cn)\<^sup>* `` {x}" by blast
  show "distinct ?v" using inv by simp
qed

lemma getDependentComponents_set:
  "set (getDependentComponents state c) = (edge_relation state)\<^sup>* `` {c}"
  by (simp add: getDependentComponents_def walkGraph_root(1) arcs_fold_connect edge_relation_def
      del: fold_simps)

subsection \<open>The reachable set\<close>

lemma cycle_store_facts:
  "getDependentComponents
     (example_store [] [example_edge ''e1'' ''n1'' ''n2'', example_edge ''e2'' ''n2'' ''n3'',
                        example_edge ''e3'' ''n3'' ''n1'']) ''n1''
     = [''n1'', ''n2'', ''n3'']"
  "allEdges (example_store [] [example_edge ''e1'' ''n1'' ''n2'', example_edge ''e2'' ''n2'' ''n3'',
                        example_edge ''e3'' ''n3'' ''n1''])
     = [example_edge ''e1'' ''n1'' ''n2'', example_edge ''e2'' ''n2'' ''n3'',
        example_edge ''e3'' ''n3'' ''n1'']"
  "allEdges (example_store [] [example_edge ''e3'' ''n3'' ''n1'', example_edge ''e2'' ''n2'' ''n3'',
                        example_edge ''e1'' ''n1'' ''n2''])
     = [example_edge ''e3'' ''n3'' ''n1'', example_edge ''e2'' ''n2'' ''n3'',
        example_edge ''e1'' ''n1'' ''n2'']"
  by code_simp+

text \<open>
  C4.  \<open>walkGraph\<close> is a total function (its termination is proved above for every map
  \<open>connectedNodes\<close>, cyclic or not), so the getter returns for every store and every root.
  What it returns holds exactly the ids reachable from the root along the edges, from
  \<open>fromNodeId\<close> to \<open>toNodeId\<close>, the root itself included; no id occurs twice; and two stores
  that hold the same edges, in whatever order, give the same set.
\<close>

theorem getDependentComponents_reachable:
  "set (getDependentComponents state rootId) = {ident. (rootId, ident) \<in> (edge_relation state)\<^sup>*}
   \<and> distinct (getDependentComponents state rootId)
   \<and> (\<forall>state'. set (allEdges state') = set (allEdges state) \<longrightarrow>
         set (getDependentComponents state' rootId) = set (getDependentComponents state rootId))"
proof (intro conjI allI impI)
  show "set (getDependentComponents state rootId) = {ident. (rootId, ident) \<in> (edge_relation state)\<^sup>*}"
    by (auto simp: getDependentComponents_set)
  show "distinct (getDependentComponents state rootId)"
    by (simp add: getDependentComponents_def walkGraph_root(2))
next
  fix state'
  assume "set (allEdges state') = set (allEdges state)"
  then have "edge_relation state' = edge_relation state" by (simp add: edge_relation_def)
  then show "set (getDependentComponents state' rootId) = set (getDependentComponents state rootId)"
    by (simp add: getDependentComponents_set)
qed

text \<open>
  The theorem at the cycle n1 \<open>\<rightarrow>\<close> n2 \<open>\<rightarrow>\<close> n3 \<open>\<rightarrow>\<close> n1, fetched in two different orders.
\<close>

theorem getDependentComponents_reachable_witness:
  "getDependentComponents
     (example_store [] [example_edge ''e1'' ''n1'' ''n2'', example_edge ''e2'' ''n2'' ''n3'',
                        example_edge ''e3'' ''n3'' ''n1'']) ''n1''
     = [''n1'', ''n2'', ''n3'']
   \<and> set (getDependentComponents
       (example_store [] [example_edge ''e3'' ''n3'' ''n1'', example_edge ''e2'' ''n2'' ''n3'',
                          example_edge ''e1'' ''n1'' ''n2'']) ''n1'')
     = {''n1'', ''n2'', ''n3''}"
proof -
  let ?s = "example_store [] [example_edge ''e1'' ''n1'' ''n2'', example_edge ''e2'' ''n2'' ''n3'',
                        example_edge ''e3'' ''n3'' ''n1'']"
  let ?s' = "example_store [] [example_edge ''e3'' ''n3'' ''n1'', example_edge ''e2'' ''n2'' ''n3'',
                        example_edge ''e1'' ''n1'' ''n2'']"
  have "set (allEdges ?s') = set (allEdges ?s)"
    unfolding cycle_store_facts by auto
  with getDependentComponents_reachable [of ?s "''n1''"]
  have "set (getDependentComponents ?s' ''n1'') = set (getDependentComponents ?s ''n1'')"
    by blast
  then show ?thesis by (simp add: cycle_store_facts(1))
qed

section \<open>Properties of the optimistic mutations\<close>

subsection \<open>Association lists and the store's views\<close>

lemma edge_at_update:
  "edge_at (state\<lparr>edgesById := AList.update k ref (edgesById state)\<rparr>) k' =
     (if k' = k then Some (edge_objects state ref) else edge_at state k')"
  by (simp add: edge_at_def update_conv')

lemma edge_at_delete:
  "edge_at (state\<lparr>edgesById := AList.delete k (edgesById state)\<rparr>) k' =
     (if k' = k then None else edge_at state k')"
  by (simp add: edge_at_def delete_conv')

lemma not_key_iff: "k \<notin> fst ` set al \<longleftrightarrow> map_of al k = None"
  by (simp add: map_of_eq_None_iff)

lemma map_entry_undo:
  "map_of al k = Some v \<Longrightarrow> g (f v) = v \<Longrightarrow> AList.map_entry k g (AList.map_entry k f al) = al"
  by (induction al) (auto split: if_splits)

lemma map_entry_twice:
  "(\<And>v. g (g v) = g v) \<Longrightarrow> AList.map_entry k g (AList.map_entry k g al) = AList.map_entry k g al"
  by (induction al) auto

lemma update_twice: "AList.update k v (AList.update k v al) = AList.update k v al"
  by (induction al) auto

lemma delete_absent: "k \<notin> fst ` set al \<Longrightarrow> AList.delete k al = al"
  by (induction al) auto

lemma delete_twice: "AList.delete k (AList.delete k al) = AList.delete k al"
  by (induction al) auto

lemma refs_allocatedD:
  "refs_allocated state \<Longrightarrow> map_of (edgesById state) k = Some ref \<Longrightarrow> ref < next_object state"
  by (auto simp: refs_allocated_def list_all_iff dest: map_of_SomeD)

lemma list_all_update:
  "list_all P al \<Longrightarrow> P (k, v) \<Longrightarrow> list_all P (AList.update k v al)"
  by (induction al) auto

lemma list_all_delete: "list_all P al \<Longrightarrow> list_all P (AList.delete k al)"
  by (induction al) auto

lemma list_all_fold_update:
  "list_all P al \<Longrightarrow> \<forall>(ref, edge)\<in>set xs. P (id_e edge, ref)
     \<Longrightarrow> list_all P (fold (\<lambda>(ref, edge) obj. AList.update (id_e edge) ref obj) xs al)"
  by (induction xs arbitrary: al) (auto simp: list_all_update)

text \<open>The initial state satisfies \<open>refs_allocated\<close>, and a fetch and every optimistic step keep it.\<close>

lemma refs_allocated_kept:
  "refs_allocated initial_state"
  "refs_allocated (FETCH_DIAGRAM_DATA_onSuccess components edges state)"
  "refs_allocated state \<Longrightarrow>
     refs_allocated (fst (CREATE_COMPONENT_CONNECTION_optimistic tempId nowTs from to state))"
  "refs_allocated state \<Longrightarrow>
     refs_allocated (CREATE_COMPONENT_CONNECTION_onSuccess tempId connection_id state)"
  "refs_allocated state \<Longrightarrow> DELETE_EDGE_optimistic nowTs edgeId state = Inr (state', undo)
     \<Longrightarrow> refs_allocated state'"
  "refs_allocated state \<Longrightarrow> RESTORE_EDGE_optimistic edgeId state = Inr (state', undo)
     \<Longrightarrow> refs_allocated state'"
  "refs_allocated state \<Longrightarrow> DELETE_COMPONENT_optimistic nowTs componentId state = Inr (state', undo)
     \<Longrightarrow> refs_allocated state'"
proof -
  show "refs_allocated initial_state"
    by (simp add: refs_allocated_def initial_state_def)
  have "\<forall>(ref, edge)\<in>set (zip [next_object state..<next_object state + length edges] edges).
          ref < next_object state + length edges"
    by (auto dest: set_zip_leftD)
  then show "refs_allocated (FETCH_DIAGRAM_DATA_onSuccess components edges state)"
    by (simp add: refs_allocated_def FETCH_DIAGRAM_DATA_onSuccess_def Let_def
        list_all_fold_update [where P = "\<lambda>(k, ref). ref < next_object state + length edges"])
  show "refs_allocated (fst (CREATE_COMPONENT_CONNECTION_optimistic tempId nowTs from to state))"
    if "refs_allocated state"
  proof -
    from that have "list_all (\<lambda>(k, ref). ref < Suc (next_object state)) (edgesById state)"
      by (auto simp: refs_allocated_def list_all_iff)
    then show ?thesis
      by (simp add: refs_allocated_def CREATE_COMPONENT_CONNECTION_optimistic_def Let_def
          list_all_update)
  qed
  show "refs_allocated (CREATE_COMPONENT_CONNECTION_onSuccess tempId connection_id state)"
    if "refs_allocated state"
  proof (cases "map_of (edgesById state) tempId")
    case None
    with that show ?thesis by (simp add: CREATE_COMPONENT_CONNECTION_onSuccess_def)
  next
    case (Some ref)
    with that have "ref < next_object state"
      by (auto simp: refs_allocated_def list_all_iff dest: map_of_SomeD)
    with that Some show ?thesis
      by (simp add: refs_allocated_def CREATE_COMPONENT_CONNECTION_onSuccess_def
          list_all_update list_all_delete)
  qed
  show "refs_allocated state'"
    if "refs_allocated state" and "DELETE_EDGE_optimistic nowTs edgeId state = Inr (state', undo)"
    using that
    by (auto simp: refs_allocated_def DELETE_EDGE_optimistic_def list_all_delete
        split: option.splits if_splits)
  show "refs_allocated state'"
    if "refs_allocated state" and "RESTORE_EDGE_optimistic edgeId state = Inr (state', undo)"
    using that
    by (auto simp: refs_allocated_def RESTORE_EDGE_optimistic_def split: option.splits)
  show "refs_allocated state'"
    if "refs_allocated state"
      and "DELETE_COMPONENT_optimistic nowTs componentId state = Inr (state', undo)"
    using that
    by (auto simp: refs_allocated_def DELETE_COMPONENT_optimistic_def split: option.splits)
qed

lemma example_store_facts:
  "refs_allocated (example_store [example_component ''c1'' ''n1''] [example_edge ''e1'' ''n1'' ''n2''])"
  "''temp-edge-1'' \<notin> fst ` set (edgesById
      (example_store [example_component ''c1'' ''n1''] [example_edge ''e1'' ''n1'' ''n2'']))"
  "map_of (edgesById (example_store [example_component ''c1'' ''n1'']
      [example_edge ''e1'' ''n1'' ''n2''])) ''e1'' = Some 0"
  "edge_objects (example_store [example_component ''c1'' ''n1'']
      [example_edge ''e1'' ''n1'' ''n2'']) 0 = example_edge ''e1'' ''n1'' ''n2''"
  "map_of (rawComponentsById (example_store [example_component ''c1'' ''n1'']
      [example_edge ''e1'' ''n1'' ''n2''])) ''c1'' = Some (example_component ''c1'' ''n1'')"
  by code_simp+

lemma added_store_facts:
  "map_of (edgesById (example_store []
      [(example_edge ''e1'' ''n1'' ''n2'')\<lparr>changeStatus := Some Added\<rparr>])) ''e1'' = Some 0"
  "edge_objects (example_store []
      [(example_edge ''e1'' ''n1'' ''n2'')\<lparr>changeStatus := Some Added\<rparr>]) 0
     = (example_edge ''e1'' ''n1'' ''n2'')\<lparr>changeStatus := Some Added\<rparr>"
  by code_simp+

lemma tempId_at_1: "tempId_at 1 = ''temp-edge-1''"
  by code_simp

subsection \<open>Soft delete and restore of an edge\<close>

text \<open>
  C5.  For an edge the store holds: if its \<open>changeStatus\<close> is \<open>added\<close>, the optimistic step
  of \<open>DELETE_EDGE\<close> removes its key from the edge map; otherwise the edge stays, with
  \<open>changeStatus\<close> \<open>deleted\<close> and \<open>deletedInfo\<close> holding the user as actor and the time of the
  call, and the optimistic step of \<open>RESTORE_EDGE\<close> on the resulting state leaves the edge
  with \<open>changeStatus\<close> \<open>unmodified\<close> and no \<open>deletedInfo\<close>.
\<close>

theorem DELETE_EDGE_then_RESTORE_EDGE:
  assumes "map_of (edgesById state) edgeId = Some ref"
  shows "(changeStatus (edge_objects state ref) = Some Added \<longrightarrow>
           (\<exists>state' undo. DELETE_EDGE_optimistic nowTs edgeId state = Inr (state', undo)
              \<and> edgeId \<notin> fst ` set (edgesById state')))
       \<and> (changeStatus (edge_objects state ref) \<noteq> Some Added \<longrightarrow>
           (\<exists>state' undo state'' undo'.
              DELETE_EDGE_optimistic nowTs edgeId state = Inr (state', undo)
              \<and> edge_at state' edgeId =
                  Some ((edge_objects state ref)
                    \<lparr>changeStatus := Some Deleted,
                     deletedInfo := Some \<lparr>actor = \<lparr>kind = ''user'', label = ''You''\<rparr>,
                                          timestamp = nowTs\<rparr>\<rparr>)
              \<and> RESTORE_EDGE_optimistic edgeId state' = Inr (state'', undo')
              \<and> edge_at state'' edgeId =
                  Some ((edge_objects state ref)
                    \<lparr>changeStatus := Some Unmodified, deletedInfo := None\<rparr>)))"
proof (intro conjI impI)
  assume "changeStatus (edge_objects state ref) = Some Added"
  with assms show "\<exists>state' undo. DELETE_EDGE_optimistic nowTs edgeId state = Inr (state', undo)
              \<and> edgeId \<notin> fst ` set (edgesById state')"
    by (simp add: DELETE_EDGE_optimistic_def not_key_iff delete_conv')
next
  assume na: "changeStatus (edge_objects state ref) \<noteq> Some Added"
  let ?e = "edge_objects state ref"
  let ?s1 = "state\<lparr>edge_objects := (edge_objects state)
                 (ref := ?e\<lparr>changeStatus := Some Deleted, deletedInfo := Some (by_you nowTs)\<rparr>)\<rparr>"
  let ?s2 = "?s1\<lparr>edge_objects := (edge_objects ?s1)
                 (ref := (edge_objects ?s1 ref)\<lparr>deletedInfo := None, changeStatus := Some Unmodified\<rparr>)\<rparr>"
  from assms na have d: "DELETE_EDGE_optimistic nowTs edgeId state
      = Inr (?s1, DELETE_EDGE_rollback_status edgeId (changeStatus ?e))"
    by (simp add: DELETE_EDGE_optimistic_def)
  from assms have r: "RESTORE_EDGE_optimistic edgeId ?s1 = Inr (?s2, RESTORE_EDGE_rollback edgeId ref)"
    by (simp add: RESTORE_EDGE_optimistic_def)
  from assms have e1: "edge_at ?s1 edgeId = Some (?e\<lparr>changeStatus := Some Deleted,
                     deletedInfo := Some \<lparr>actor = \<lparr>kind = ''user'', label = ''You''\<rparr>,
                                          timestamp = nowTs\<rparr>\<rparr>)"
    by (simp add: edge_at_def by_you_def)
  from assms have e2: "edge_at ?s2 edgeId = Some (?e\<lparr>changeStatus := Some Unmodified, deletedInfo := None\<rparr>)"
    by (simp add: edge_at_def)
  from d r e1 e2 show "\<exists>state' undo state'' undo'.
              DELETE_EDGE_optimistic nowTs edgeId state = Inr (state', undo)
              \<and> edge_at state' edgeId =
                  Some ((edge_objects state ref)
                    \<lparr>changeStatus := Some Deleted,
                     deletedInfo := Some \<lparr>actor = \<lparr>kind = ''user'', label = ''You''\<rparr>,
                                          timestamp = nowTs\<rparr>\<rparr>)
              \<and> RESTORE_EDGE_optimistic edgeId state' = Inr (state'', undo')
              \<and> edge_at state'' edgeId =
                  Some ((edge_objects state ref)
                    \<lparr>changeStatus := Some Unmodified, deletedInfo := None\<rparr>)"
    by blast
qed

text \<open>The theorem at an added edge and at an unmodified edge.\<close>

theorem DELETE_EDGE_then_RESTORE_EDGE_witness:
  "(\<exists>state' undo.
      DELETE_EDGE_optimistic ''t1'' ''e1''
        (example_store [] [(example_edge ''e1'' ''n1'' ''n2'')\<lparr>changeStatus := Some Added\<rparr>])
        = Inr (state', undo)
      \<and> ''e1'' \<notin> fst ` set (edgesById state'))
   \<and> (\<exists>state' undo state'' undo'.
        DELETE_EDGE_optimistic ''t1'' ''e1''
          (example_store [example_component ''c1'' ''n1''] [example_edge ''e1'' ''n1'' ''n2''])
          = Inr (state', undo)
      \<and> edge_at state' ''e1'' =
          Some ((example_edge ''e1'' ''n1'' ''n2'')
            \<lparr>changeStatus := Some Deleted,
             deletedInfo := Some \<lparr>actor = \<lparr>kind = ''user'', label = ''You''\<rparr>,
                                  timestamp = ''t1''\<rparr>\<rparr>)
      \<and> RESTORE_EDGE_optimistic ''e1'' state' = Inr (state'', undo')
      \<and> edge_at state'' ''e1'' =
          Some ((example_edge ''e1'' ''n1'' ''n2'')
            \<lparr>changeStatus := Some Unmodified, deletedInfo := None\<rparr>))"
proof -
  have a: "changeStatus ((example_edge ''e1'' ''n1'' ''n2'')\<lparr>changeStatus := Some Added\<rparr>)
             = Some Added"
    and u: "changeStatus (example_edge ''e1'' ''n1'' ''n2'') \<noteq> Some Added"
    by (simp_all add: example_edge_def)
  show ?thesis
    using DELETE_EDGE_then_RESTORE_EDGE [OF added_store_facts(1), of "''t1''"]
      DELETE_EDGE_then_RESTORE_EDGE [OF example_store_facts(3), of "''t1''"]
      a u
    unfolding added_store_facts(2) example_store_facts(4)
    by blast
qed

subsection \<open>From the provisional id to the server's id\<close>

text \<open>
  C6.  After the optimistic step of \<open>CREATE_COMPONENT_CONNECTION\<close> under the provisional id
  and then \<open>onSuccess\<close> with the connection id of the response (another id than the
  provisional one), the edge map holds under the connection id the very edge it held
  under the provisional id, with the endpoints of the call, and the provisional id is no
  key of the map any more.
\<close>

theorem CREATE_COMPONENT_CONNECTION_canonical_id:
  assumes "connection_id \<noteq> tempId"
  shows "\<exists>state1 undo state2 edge.
           CREATE_COMPONENT_CONNECTION_optimistic tempId nowTs from to state = (state1, undo)
         \<and> CREATE_COMPONENT_CONNECTION_onSuccess tempId connection_id state1 = state2
         \<and> edge_at state1 tempId = Some edge
         \<and> edge_at state2 connection_id = Some edge
         \<and> fromNodeId edge = fst from \<and> fromSocketId edge = snd from
         \<and> toNodeId edge = fst to \<and> toSocketId edge = snd to
         \<and> tempId \<notin> fst ` set (edgesById state2)"
  using assms
  by (simp add: CREATE_COMPONENT_CONNECTION_optimistic_def CREATE_COMPONENT_CONNECTION_onSuccess_def
      Let_def edge_at_def update_conv' delete_conv' not_key_iff)

text \<open>
  The theorem at the spec's example: the clock reads 1, so the provisional id is
  \<open>temp-edge-1\<close>, and the server answers \<open>edge-42\<close>.
\<close>

theorem CREATE_COMPONENT_CONNECTION_canonical_id_witness:
  "tempId_at 1 = ''temp-edge-1'' \<and> ''edge-42'' \<noteq> tempId_at 1
   \<and> (\<exists>state1 undo state2 edge.
         CREATE_COMPONENT_CONNECTION_optimistic (tempId_at 1) ''2023-05-03T10:00:00.000Z''
           (''n1'', ''out'') (''n2'', ''in'') initial_state = (state1, undo)
       \<and> CREATE_COMPONENT_CONNECTION_onSuccess (tempId_at 1) ''edge-42'' state1 = state2
       \<and> edge_at state1 (tempId_at 1) = Some edge
       \<and> edge_at state2 ''edge-42'' = Some edge
       \<and> fromNodeId edge = ''n1'' \<and> fromSocketId edge = ''out''
       \<and> toNodeId edge = ''n2'' \<and> toSocketId edge = ''in''
       \<and> tempId_at 1 \<notin> fst ` set (edgesById state2))"
proof -
  have ne: "''edge-42'' \<noteq> tempId_at 1" unfolding tempId_at_1 by simp
  show ?thesis
    using tempId_at_1 ne
      CREATE_COMPONENT_CONNECTION_canonical_id [OF ne, of "''2023-05-03T10:00:00.000Z''"
        "(''n1'', ''out'')" "(''n2'', ''in'')" initial_state]
    by simp
qed

subsection \<open>What a rollback restores\<close>

lemma create_rollback_restores:
  assumes "refs_allocated state" and "tempId \<notin> fst ` set (edgesById state)"
  shows "\<exists>state2.
           rollback_at_once (Inr (CREATE_COMPONENT_CONNECTION_optimistic tempId nowTs from to state))
             = Inr state2
         \<and> (\<forall>k. edge_at state2 k = edge_at state k)
         \<and> (\<forall>k. component_at state2 k = component_at state k)
         \<and> selectedEdgeId state2 = selectedEdgeId state"
proof -
  let ?s2 = "state\<lparr>edge_objects := (edge_objects state)
                (next_object state :=
                   \<lparr>id_e = tempId, fromNodeId = fst from, fromSocketId = snd from,
                    toNodeId = fst to, toSocketId = snd to, isInvisible = None,
                    changeStatus = Some Added, createdInfo = by_you nowTs, deletedInfo = None\<rparr>),
              next_object := Suc (next_object state),
              edgesById := edgesById state\<rparr>"
  have "AList.delete tempId (AList.update tempId (next_object state) (edgesById state))
          = edgesById state"
    using assms(2) by (simp add: delete_update_same delete_absent)
  then have r: "rollback_at_once
      (Inr (CREATE_COMPONENT_CONNECTION_optimistic tempId nowTs from to state)) = Inr ?s2"
    by (simp add: rollback_at_once_def CREATE_COMPONENT_CONNECTION_optimistic_def
        CREATE_COMPONENT_CONNECTION_rollback_def Let_def)
  have "edge_at ?s2 k = edge_at state k" for k
  proof (cases "map_of (edgesById state) k")
    case None
    then show ?thesis by (simp add: edge_at_def)
  next
    case (Some ref)
    with assms(1) have "ref < next_object state" by (rule refs_allocatedD)
    with Some show ?thesis by (simp add: edge_at_def)
  qed
  moreover have "component_at ?s2 k = component_at state k" for k
    by (simp add: component_at_def)
  ultimately show ?thesis using r by auto
qed

lemma delete_edge_rollback_restores:
  assumes "map_of (edgesById state) edgeId = Some ref"
    and "changeStatus (edge_objects state ref) = Some Added
         \<or> deletedInfo (edge_objects state ref) = None"
  shows "\<exists>state2.
           rollback_at_once (DELETE_EDGE_optimistic nowTs edgeId state) = Inr state2
         \<and> (\<forall>k. edge_at state2 k = edge_at state k)
         \<and> (\<forall>k. component_at state2 k = component_at state k)
         \<and> selectedEdgeId state2 = Some edgeId"
proof (cases "changeStatus (edge_objects state ref) = Some Added")
  case True
  let ?s2 = "state\<lparr>edgesById := AList.update edgeId ref (AList.delete edgeId (edgesById state)),
                    selectedEdgeId := Some edgeId\<rparr>"
  from True assms(1) have r: "rollback_at_once (DELETE_EDGE_optimistic nowTs edgeId state) = Inr ?s2"
    by (simp add: rollback_at_once_def DELETE_EDGE_optimistic_def DELETE_EDGE_rollback_added_def)
  have "edge_at ?s2 k = edge_at state k" for k
    using assms(1) by (simp add: edge_at_def update_conv' delete_conv')
  moreover have "component_at ?s2 k = component_at state k" for k
    by (simp add: component_at_def)
  ultimately show ?thesis using r by auto
next
  case False
  with assms(2) have di: "deletedInfo (edge_objects state ref) = None" by simp
  let ?s2 = "state\<lparr>selectedEdgeId := Some edgeId\<rparr>"
  have "(edge_objects state ref)\<lparr>changeStatus := changeStatus (edge_objects state ref),
           deletedInfo := None\<rparr> = edge_objects state ref"
    using di by simp
  with False assms(1) have r: "rollback_at_once (DELETE_EDGE_optimistic nowTs edgeId state) = Inr ?s2"
    by (simp add: rollback_at_once_def DELETE_EDGE_optimistic_def DELETE_EDGE_rollback_status_def)
  have "edge_at ?s2 k = edge_at state k" for k by (simp add: edge_at_def)
  moreover have "component_at ?s2 k = component_at state k" for k
    by (simp add: component_at_def)
  ultimately show ?thesis using r by auto
qed

lemma delete_component_rollback_restores:
  assumes "map_of (rawComponentsById state) componentId = Some c" and "deletedInfo_c c = None"
  shows "rollback_at_once (DELETE_COMPONENT_optimistic nowTs componentId state) = Inr state"
proof -
  let ?f = "\<lambda>c. c\<lparr>changeStatus_c := Deleted, deletedInfo_c := Some (by_you nowTs)\<rparr>"
  let ?g = "\<lambda>c'. c'\<lparr>changeStatus_c := changeStatus_c c, deletedInfo_c := None\<rparr>"
  have "?g (?f c) = c" using assms(2) by simp
  with assms(1) have "AList.map_entry componentId ?g
      (AList.map_entry componentId ?f (rawComponentsById state)) = rawComponentsById state"
    by (rule map_entry_undo)
  with assms(1) show ?thesis
    by (simp add: rollback_at_once_def DELETE_COMPONENT_optimistic_def
        DELETE_COMPONENT_rollback_def map_of_map_entry)
qed

text \<open>
  C3 (as amended).  Applied to the state its optimistic step left, the rollback closure
  gives back the edge and component maps as they were before the mutation: every edge id
  and every component id stands for the same entity as before, or for none as before.
  This holds for a connection create (under a provisional id the map did not hold), for
  an edge delete (of an edge that is \<open>added\<close> or carried no \<open>deletedInfo\<close>) and for a
  component delete (of a component that carried no \<open>deletedInfo\<close>).  A rolled back edge
  delete leaves \<open>selectedEdgeId\<close> at the edge's id, whatever was selected before; the other
  two leave the selection alone.
\<close>

theorem rollback_restores_maps:
  "(refs_allocated state \<and> tempId \<notin> fst ` set (edgesById state) \<longrightarrow>
      (\<exists>state2.
          rollback_at_once (Inr (CREATE_COMPONENT_CONNECTION_optimistic tempId nowTs from to state))
            = Inr state2
        \<and> (\<forall>k. edge_at state2 k = edge_at state k)
        \<and> (\<forall>k. component_at state2 k = component_at state k)
        \<and> selectedEdgeId state2 = selectedEdgeId state))
   \<and> (map_of (edgesById state) edgeId = Some ref
        \<and> (changeStatus (edge_objects state ref) = Some Added
             \<or> deletedInfo (edge_objects state ref) = None) \<longrightarrow>
      (\<exists>state2.
          rollback_at_once (DELETE_EDGE_optimistic nowTs edgeId state) = Inr state2
        \<and> (\<forall>k. edge_at state2 k = edge_at state k)
        \<and> (\<forall>k. component_at state2 k = component_at state k)
        \<and> selectedEdgeId state2 = Some edgeId))
   \<and> (map_of (rawComponentsById state) componentId = Some c \<and> deletedInfo_c c = None \<longrightarrow>
      rollback_at_once (DELETE_COMPONENT_optimistic nowTs componentId state) = Inr state)"
  using create_rollback_restores [of state tempId nowTs "from" to]
    delete_edge_rollback_restores [of state edgeId ref nowTs]
    delete_component_rollback_restores [of state componentId c nowTs]
  by blast

text \<open>The theorem at a store with one component and one unmodified edge.\<close>

theorem rollback_restores_maps_witness:
  "(\<exists>state2.
      rollback_at_once (Inr (CREATE_COMPONENT_CONNECTION_optimistic ''temp-edge-1''
          ''2023-05-03T10:00:00.000Z'' (''n1'', ''out'') (''n2'', ''in'')
          (example_store [example_component ''c1'' ''n1''] [example_edge ''e1'' ''n1'' ''n2''])))
        = Inr state2
      \<and> edge_at state2 ''temp-edge-1'' = None
      \<and> edge_at state2 ''e1'' = Some (example_edge ''e1'' ''n1'' ''n2''))
   \<and> (\<exists>state2.
        rollback_at_once (DELETE_EDGE_optimistic ''2023-05-03T10:00:00.000Z'' ''e1''
          (example_store [example_component ''c1'' ''n1''] [example_edge ''e1'' ''n1'' ''n2'']))
          = Inr state2
      \<and> edge_at state2 ''e1'' = Some (example_edge ''e1'' ''n1'' ''n2'')
      \<and> selectedEdgeId state2 = Some ''e1'')
   \<and> rollback_at_once (DELETE_COMPONENT_optimistic ''2023-05-03T10:00:00.000Z'' ''c1''
        (example_store [example_component ''c1'' ''n1''] [example_edge ''e1'' ''n1'' ''n2'']))
      = Inr (example_store [example_component ''c1'' ''n1''] [example_edge ''e1'' ''n1'' ''n2''])"
proof -
  let ?s = "example_store [example_component ''c1'' ''n1''] [example_edge ''e1'' ''n1'' ''n2'']"
  have e: "edge_at ?s ''e1'' = Some (example_edge ''e1'' ''n1'' ''n2'')"
    and t: "edge_at ?s ''temp-edge-1'' = None"
    by (simp_all add: edge_at_def example_store_facts not_key_iff [symmetric])
  have d: "deletedInfo (example_edge ''e1'' ''n1'' ''n2'') = None"
    and dc: "deletedInfo_c (example_component ''c1'' ''n1'') = None"
    by (simp_all add: example_edge_def example_component_def)
  show ?thesis
    using rollback_restores_maps [of ?s "''temp-edge-1''" "''2023-05-03T10:00:00.000Z''"
        "(''n1'', ''out'')" "(''n2'', ''in'')" "''e1''" 0 "''c1''" "example_component ''c1'' ''n1''"]
      example_store_facts e t d dc
    by (simp only:) metis
qed

text \<open>
  C3 as stated fails.  The store holds an edge e1 that is \<open>deleted\<close> with its \<open>deletedInfo\<close>,
  and no edge is selected.  \<open>DELETE_EDGE\<close> on e1 and then its rollback leave e1 without
  \<open>deletedInfo\<close>, and e1 selected.
\<close>

theorem rollback_changes_store_counterexample:
  "edge_at (example_store [] [(example_edge ''e1'' ''n1'' ''n2'')
       \<lparr>changeStatus := Some Deleted, deletedInfo := Some (by_you ''t1'')\<rparr>]) ''e1''
     = Some ((example_edge ''e1'' ''n1'' ''n2'')
         \<lparr>changeStatus := Some Deleted, deletedInfo := Some (by_you ''t1'')\<rparr>)
   \<and> selectedEdgeId (example_store [] [(example_edge ''e1'' ''n1'' ''n2'')
       \<lparr>changeStatus := Some Deleted, deletedInfo := Some (by_you ''t1'')\<rparr>]) = None
   \<and> map_sum id (\<lambda>state2. (edge_at state2 ''e1'', selectedEdgeId state2))
       (rollback_at_once (DELETE_EDGE_optimistic ''t2'' ''e1''
          (example_store [] [(example_edge ''e1'' ''n1'' ''n2'')
             \<lparr>changeStatus := Some Deleted, deletedInfo := Some (by_you ''t1'')\<rparr>])))
     = Inr (Some ((example_edge ''e1'' ''n1'' ''n2'')
              \<lparr>changeStatus := Some Deleted, deletedInfo := None\<rparr>), Some ''e1'')"
  by code_simp

subsection \<open>Rollback closures on a state without their target\<close>

lemma rollback_idempotent:
  "CREATE_COMPONENT_CONNECTION_rollback tempId state = Inr state'
     \<Longrightarrow> CREATE_COMPONENT_CONNECTION_rollback tempId state' = Inr state'"
  "DELETE_EDGE_rollback_added edgeId ref state = Inr state'
     \<Longrightarrow> DELETE_EDGE_rollback_added edgeId ref state' = Inr state'"
  "DELETE_EDGE_rollback_status edgeId status state = Inr state'
     \<Longrightarrow> DELETE_EDGE_rollback_status edgeId status state' = Inr state'"
  "RESTORE_EDGE_rollback edgeId ref state = Inr state'
     \<Longrightarrow> RESTORE_EDGE_rollback edgeId ref state' = Inr state'"
  "DELETE_COMPONENT_rollback componentId status_c state = Inr state'
     \<Longrightarrow> DELETE_COMPONENT_rollback componentId status_c state' = Inr state'"
proof -
  show "CREATE_COMPONENT_CONNECTION_rollback tempId state = Inr state'
     \<Longrightarrow> CREATE_COMPONENT_CONNECTION_rollback tempId state' = Inr state'"
    by (auto simp: CREATE_COMPONENT_CONNECTION_rollback_def delete_twice)
  show "DELETE_EDGE_rollback_added edgeId ref state = Inr state'
     \<Longrightarrow> DELETE_EDGE_rollback_added edgeId ref state' = Inr state'"
    by (auto simp: DELETE_EDGE_rollback_added_def update_twice)
  show "DELETE_EDGE_rollback_status edgeId status state = Inr state'
     \<Longrightarrow> DELETE_EDGE_rollback_status edgeId status state' = Inr state'"
    by (auto simp: DELETE_EDGE_rollback_status_def split: option.splits)
  show "RESTORE_EDGE_rollback edgeId ref state = Inr state'
     \<Longrightarrow> RESTORE_EDGE_rollback edgeId ref state' = Inr state'"
    by (auto simp: RESTORE_EDGE_rollback_def update_twice)
  show "DELETE_COMPONENT_rollback componentId status_c state = Inr state'
     \<Longrightarrow> DELETE_COMPONENT_rollback componentId status_c state' = Inr state'"
    by (auto simp: DELETE_COMPONENT_rollback_def map_of_map_entry map_entry_twice
        split: option.splits)
qed

lemma optimistic_closures:
  "snd (CREATE_COMPONENT_CONNECTION_optimistic tempId nowTs from to state0)
     = CREATE_COMPONENT_CONNECTION_rollback tempId"
  "DELETE_EDGE_optimistic nowTs edgeId state0 = Inr (state1, undo) \<Longrightarrow>
     (\<exists>ref. map_of (edgesById state0) edgeId = Some ref
        \<and> (if changeStatus (edge_objects state0 ref) = Some Added
            then undo = DELETE_EDGE_rollback_added edgeId ref
            else undo = DELETE_EDGE_rollback_status edgeId (changeStatus (edge_objects state0 ref))))"
  "RESTORE_EDGE_optimistic edgeId state0 = Inr (state1, undo) \<Longrightarrow>
     (\<exists>ref. map_of (edgesById state0) edgeId = Some ref \<and> undo = RESTORE_EDGE_rollback edgeId ref)"
  "DELETE_COMPONENT_optimistic nowTs componentId state0 = Inr (state1, undo) \<Longrightarrow>
     (\<exists>c. map_of (rawComponentsById state0) componentId = Some c
        \<and> undo = DELETE_COMPONENT_rollback componentId (changeStatus_c c))"
  by (auto simp: CREATE_COMPONENT_CONNECTION_optimistic_def DELETE_EDGE_optimistic_def
      RESTORE_EDGE_optimistic_def DELETE_COMPONENT_optimistic_def Let_def
      split: option.splits if_splits)

text \<open>
  C7 (as amended).  The rollback closure of a connection create is a no-op on every state
  whose edge map does not hold the provisional id: it returns that state.  The rollback
  closure of an added edge's delete is no such no-op: on every state, with the edge's id
  present or not, it puts the edge object it captured under the edge's id and selects it.
  Every rollback closure an optimistic step returns is idempotent where it returns: a
  second call on the state the first call gave returns that state.
\<close>

theorem rollback_when_target_absent:
  "(tempId \<notin> fst ` set (edgesById state) \<longrightarrow>
      snd (CREATE_COMPONENT_CONNECTION_optimistic tempId nowTs from to state0) state = Inr state)
   \<and> (DELETE_EDGE_optimistic nowTs edgeId state0 = Inr (state1, undo)
        \<and> map_of (edgesById state0) edgeId = Some ref
        \<and> changeStatus (edge_objects state0 ref) = Some Added \<longrightarrow>
      (\<exists>state'. undo state = Inr state'
         \<and> edge_at state' edgeId = Some (edge_objects state ref)
         \<and> selectedEdgeId state' = Some edgeId))
   \<and> (undo = snd (CREATE_COMPONENT_CONNECTION_optimistic tempId nowTs from to state0)
        \<or> DELETE_EDGE_optimistic nowTs edgeId state0 = Inr (state1, undo)
        \<or> RESTORE_EDGE_optimistic edgeId state0 = Inr (state1, undo)
        \<or> DELETE_COMPONENT_optimistic nowTs componentId state0 = Inr (state1, undo) \<longrightarrow>
      (undo state = Inr state' \<longrightarrow> undo state' = Inr state'))"
proof (intro conjI impI)
  assume "tempId \<notin> fst ` set (edgesById state)"
  then show "snd (CREATE_COMPONENT_CONNECTION_optimistic tempId nowTs from to state0) state = Inr state"
    by (simp add: optimistic_closures(1) CREATE_COMPONENT_CONNECTION_rollback_def delete_absent)
next
  assume "DELETE_EDGE_optimistic nowTs edgeId state0 = Inr (state1, undo)
        \<and> map_of (edgesById state0) edgeId = Some ref
        \<and> changeStatus (edge_objects state0 ref) = Some Added"
  then have "undo = DELETE_EDGE_rollback_added edgeId ref"
    using optimistic_closures(2) [of nowTs edgeId state0 state1 undo] by auto
  then show "\<exists>state'. undo state = Inr state'
         \<and> edge_at state' edgeId = Some (edge_objects state ref)
         \<and> selectedEdgeId state' = Some edgeId"
    by (simp add: DELETE_EDGE_rollback_added_def edge_at_def update_conv')
next
  assume u: "undo = snd (CREATE_COMPONENT_CONNECTION_optimistic tempId nowTs from to state0)
        \<or> DELETE_EDGE_optimistic nowTs edgeId state0 = Inr (state1, undo)
        \<or> RESTORE_EDGE_optimistic edgeId state0 = Inr (state1, undo)
        \<or> DELETE_COMPONENT_optimistic nowTs componentId state0 = Inr (state1, undo)"
    and r: "undo state = Inr state'"
  from u consider
      "undo = CREATE_COMPONENT_CONNECTION_rollback tempId"
    | ref where "undo = DELETE_EDGE_rollback_added edgeId ref"
    | status where "undo = DELETE_EDGE_rollback_status edgeId status"
    | ref where "undo = RESTORE_EDGE_rollback edgeId ref"
    | status_c where "undo = DELETE_COMPONENT_rollback componentId status_c"
    using optimistic_closures(1) [of tempId nowTs "from" to state0]
      optimistic_closures(2) [of nowTs edgeId state0 state1 undo]
      optimistic_closures(3) [of edgeId state0 state1 undo]
      optimistic_closures(4) [of nowTs componentId state0 state1 undo]
    by (auto split: if_splits)
  then show "undo state' = Inr state'"
    using r by cases (auto dest: rollback_idempotent)
qed

text \<open>
  The theorem at a delete of an added edge e1 followed by a fetch that delivers no
  edges: the rollback closure, called when e1 is gone, brings e1 back.
\<close>

theorem rollback_when_target_absent_witness:
  "snd (CREATE_COMPONENT_CONNECTION_optimistic ''temp-edge-1'' ''t1'' (''n1'', ''out'')
          (''n2'', ''in'') initial_state)
       (example_store [example_component ''c1'' ''n1''] [example_edge ''e1'' ''n1'' ''n2''])
     = Inr (example_store [example_component ''c1'' ''n1''] [example_edge ''e1'' ''n1'' ''n2''])
   \<and> (\<exists>state1 undo state'.
         DELETE_EDGE_optimistic ''t1'' ''e1''
           (example_store [] [(example_edge ''e1'' ''n1'' ''n2'')\<lparr>changeStatus := Some Added\<rparr>])
           = Inr (state1, undo)
       \<and> edge_at (FETCH_DIAGRAM_DATA_onSuccess [] [] state1) ''e1'' = None
       \<and> undo (FETCH_DIAGRAM_DATA_onSuccess [] [] state1) = Inr state'
       \<and> edge_at state' ''e1''
           = Some ((example_edge ''e1'' ''n1'' ''n2'')\<lparr>changeStatus := Some Added\<rparr>)
       \<and> selectedEdgeId state' = Some ''e1''
       \<and> undo state' = Inr state')"
proof -
  let ?sA = "example_store [] [(example_edge ''e1'' ''n1'' ''n2'')\<lparr>changeStatus := Some Added\<rparr>]"
  let ?sU = "example_store [example_component ''c1'' ''n1''] [example_edge ''e1'' ''n1'' ''n2'']"
  let ?s1 = "?sA\<lparr>edgesById := AList.delete ''e1'' (edgesById ?sA), selectedEdgeId := None\<rparr>"
  let ?undo = "DELETE_EDGE_rollback_added ''e1'' 0"
  let ?s = "FETCH_DIAGRAM_DATA_onSuccess [] [] ?s1"
  have a: "changeStatus (edge_objects ?sA 0) = Some Added"
    unfolding added_store_facts(2) by simp
  from a have d: "DELETE_EDGE_optimistic ''t1'' ''e1'' ?sA = Inr (?s1, ?undo)"
    by (simp add: DELETE_EDGE_optimistic_def added_store_facts(1))
  have gone: "edge_at ?s ''e1'' = None"
    by (simp add: FETCH_DIAGRAM_DATA_onSuccess_def edge_at_def)
  have obj: "edge_objects ?s 0 = (example_edge ''e1'' ''n1'' ''n2'')\<lparr>changeStatus := Some Added\<rparr>"
    by (simp add: FETCH_DIAGRAM_DATA_onSuccess_def added_store_facts(2))
  note T = rollback_when_target_absent [where tempId = "''temp-edge-1''" and nowTs = "''t1''"
      and edgeId = "''e1''" and ref = 0 and ?from = "(''n1'', ''out'')" and to = "(''n2'', ''in'')"
      and undo = ?undo and ?state1.0 = ?s1]
  from T [of ?sU initial_state] example_store_facts(2)
  have c1: "snd (CREATE_COMPONENT_CONNECTION_optimistic ''temp-edge-1'' ''t1'' (''n1'', ''out'')
          (''n2'', ''in'') initial_state) ?sU = Inr ?sU"
    by blast
  from T [of ?s ?sA] d added_store_facts(1) a
  obtain state' where u: "?undo ?s = Inr state'"
    and e: "edge_at state' ''e1'' = Some (edge_objects ?s 0)"
    and s: "selectedEdgeId state' = Some ''e1''"
    by blast
  from T [of ?s ?sA _ state'] d u have i: "?undo state' = Inr state'" by blast
  from c1 d gone u e [unfolded obj] s i show ?thesis by blast
qed

text \<open>
  C7 as stated fails.  After the optimistic delete of the added edge e1 the edge map does
  not hold e1; the rollback closure called on that state changes it: e1 is in the map again.
\<close>

theorem rollback_not_noop_counterexample:
  "map_sum id (\<lambda>(state1, undo). (edge_at state1 ''e1'', map_sum id (\<lambda>state2. edge_at state2 ''e1'') (undo state1)))
     (DELETE_EDGE_optimistic ''t1'' ''e1''
        (example_store [] [(example_edge ''e1'' ''n1'' ''n2'')\<lparr>changeStatus := Some Added\<rparr>]))
   = Inr (None, Inr (Some ((example_edge ''e1'' ''n1'' ''n2'')\<lparr>changeStatus := Some Added\<rparr>)))"
  by code_simp

subsection \<open>Where a rollback does not undo\<close>

text \<open>
  The rollback closure of \<open>RESTORE_EDGE\<close> assigns \<open>originalEdge\<close>, the object the optimistic
  step has already written to: the edge stays restored.  The rollback closures of the two
  tombstone deletes read the entity through the map first, which throws when it is gone.
\<close>

lemma RESTORE_EDGE_rollback_keeps_restored_edge:
  assumes "map_of (edgesById state) edgeId = Some ref"
  shows "\<exists>state2.
           rollback_at_once (RESTORE_EDGE_optimistic edgeId state) = Inr state2
         \<and> edge_at state2 edgeId =
             Some ((edge_objects state ref)\<lparr>deletedInfo := None, changeStatus := Some Unmodified\<rparr>)"
  using assms
  by (simp add: rollback_at_once_def RESTORE_EDGE_optimistic_def RESTORE_EDGE_rollback_def
      edge_at_def update_conv')

lemma tombstone_rollback_TypeError:
  "DELETE_COMPONENT_optimistic nowTs componentId state0 = Inr (state1, undo)
     \<Longrightarrow> map_of (rawComponentsById state) componentId = None \<Longrightarrow> undo state = Inl TypeError"
  "DELETE_EDGE_optimistic nowTs edgeId state0 = Inr (state1, undo)
     \<Longrightarrow> map_of (edgesById state0) edgeId = Some ref
     \<Longrightarrow> changeStatus (edge_objects state0 ref) \<noteq> Some Added
     \<Longrightarrow> map_of (edgesById state) edgeId = None \<Longrightarrow> undo state = Inl TypeError"
  using optimistic_closures(4) [of nowTs componentId state0 state1 undo]
    optimistic_closures(2) [of nowTs edgeId state0 state1 undo]
  by (auto simp: DELETE_COMPONENT_rollback_def DELETE_EDGE_rollback_status_def)


section \<open>Properties of the job record creation\<close>

text \<open>
  C9.  For every attribute value id and tenancy: when the tenancy converts, its
  \<open>tenancy_universal\<close> is not null and the key sequence is not used up, the function returns
  and the table has exactly one row more, the returned one, whose \<open>data\<close> holds the given
  \<open>attribute_value_id\<close>, an empty object as \<open>dependent_values_metadata\<close>, and empty arrays as
  \<open>queued_dependent_value_ids\<close>, \<open>running_dependent_value_ids\<close> and
  \<open>completed_dependent_value_ids\<close>.
\<close>

theorem status_update_create_v1_inserts_empty_job:
  assumes "tenancy_json_to_columns_v1 this_tenancy = Inr this_tenancy_record"
    and "tenancy_universal this_tenancy_record = Some universal"
    and "status_updates_pk_seq db < 2 ^ 63 - 1"
  shows "\<exists>object db' this_new_row.
           status_update_create_v1 tenancy_json_to_columns_v1 now this_attribute_value_id
             this_tenancy db = Inr (object, db')
         \<and> status_updates db' = status_updates db @ [this_new_row]
         \<and> object = row_to_json this_new_row
         \<and> json_get (data this_new_row) ''attribute_value_id''
             = Some (JNumber (sint this_attribute_value_id))
         \<and> json_get (data this_new_row) ''dependent_values_metadata'' = Some (JObject [])
         \<and> json_get (data this_new_row) ''queued_dependent_value_ids'' = Some (JArray [])
         \<and> json_get (data this_new_row) ''running_dependent_value_ids'' = Some (JArray [])
         \<and> json_get (data this_new_row) ''completed_dependent_value_ids'' = Some (JArray [])"
  using assms
  by (simp add: status_update_create_v1_def jsonb_build_object_def json_get_def Let_def)

text \<open>The theorem at attribute value 42 on an empty table.\<close>

theorem status_update_create_v1_inserts_empty_job_witness:
  "\<exists>object db' this_new_row.
     status_update_create_v1 example_tenancy ''2023-05-03 10:00:00+00'' 42
       (JObject [(''tenancy_universal'', JBool False)])
       \<lparr>status_updates = [], status_updates_pk_seq = 0\<rparr> = Inr (object, db')
   \<and> status_updates db' = [this_new_row]
   \<and> pk this_new_row = 1
   \<and> json_get (data this_new_row) ''attribute_value_id'' = Some (JNumber 42)
   \<and> json_get (data this_new_row) ''dependent_values_metadata'' = Some (JObject [])
   \<and> json_get (data this_new_row) ''queued_dependent_value_ids'' = Some (JArray [])
   \<and> json_get (data this_new_row) ''running_dependent_value_ids'' = Some (JArray [])
   \<and> json_get (data this_new_row) ''completed_dependent_value_ids'' = Some (JArray [])"
proof -
  have t: "example_tenancy (JObject [(''tenancy_universal'', JBool False)])
      = Inr \<lparr>tenancy_universal = Some False, tenancy_billing_account_ids = Some [],
               tenancy_organization_ids = Some [], tenancy_workspace_ids = Some [1]\<rparr>"
    by (simp add: example_tenancy_def json_get_def)
  have s: "sint (42 :: bigint) = 42" by simp
  from t status_update_create_v1_inserts_empty_job
      [where ?tenancy_json_to_columns_v1.0 = example_tenancy
         and this_tenancy = "JObject [(''tenancy_universal'', JBool False)]"
         and this_tenancy_record = "\<lparr>tenancy_universal = Some False,
               tenancy_billing_account_ids = Some [], tenancy_organization_ids = Some [],
               tenancy_workspace_ids = Some [1]\<rparr>"
         and universal = False
         and db = "\<lparr>status_updates = [], status_updates_pk_seq = 0\<rparr>"
         and now = "''2023-05-03 10:00:00+00''" and this_attribute_value_id = 42]
  obtain object db' this_new_row where
    r: "status_update_create_v1 example_tenancy ''2023-05-03 10:00:00+00'' 42
       (JObject [(''tenancy_universal'', JBool False)])
       \<lparr>status_updates = [], status_updates_pk_seq = 0\<rparr> = Inr (object, db')"
    and rest: "status_updates db' = [this_new_row]"
      "json_get (data this_new_row) ''attribute_value_id'' = Some (JNumber 42)"
      "json_get (data this_new_row) ''dependent_values_metadata'' = Some (JObject [])"
      "json_get (data this_new_row) ''queued_dependent_value_ids'' = Some (JArray [])"
      "json_get (data this_new_row) ''running_dependent_value_ids'' = Some (JArray [])"
      "json_get (data this_new_row) ''completed_dependent_value_ids'' = Some (JArray [])"
    unfolding s by auto
  from r rest(1) have "pk this_new_row = 1"
    by (auto simp: status_update_create_v1_def t Let_def)
  with r rest show ?thesis by blast
qed

end
